theory Spec2Isabelle
  imports Complex_Main
begin

section \<open>Tensors\<close>

text \<open>
  The module \<^verbatim>\<open>speechbrain/processing/signal_processing.py\<close> works on dense arrays of
  floating-point numbers.  An array is modelled as its shape together with its entries, the
  entries being nested lists (outermost axis first).  Entries are real numbers, the values of
  the finite floating-point numbers of an array.  The codec functions only copy entries and
  negate them, which floating-point arithmetic does without rounding.  Where the module
  adds and multiplies entries and a result is stated about the values, the rounding
  operations of the array's type are parameters of the model.  The notch filter and the
  Fourier transforms are written in ideal arithmetic: the failures, the shapes and the
  numbers of samples stated about them do not depend on rounding.

  Exceptions are values: every function that can raise returns \<open>error + result\<close>.
\<close>

datatype error =
    ValueError          \<comment> \<open>\<^verbatim>\<open>raise ValueError(...)\<close> in the module\<close>
  | AssertionError      \<comment> \<open>a failed \<^verbatim>\<open>assert\<close>\<close>
  | ShapeMismatch       \<comment> \<open>the array library's error: a value cannot be broadcast to the assigned region\<close>
  | IndexError          \<comment> \<open>the array library's error: an index or a mask does not fit its axis\<close>
  | RangeError          \<comment> \<open>the array library's error: \<^verbatim>\<open>arange\<close> with an upper bound below the lower one\<close>
  | EmptyStack          \<comment> \<open>the array library's error: \<^verbatim>\<open>stack\<close> of an empty list of arrays\<close>
  | LinAlgError         \<comment> \<open>an error of the external factorisation, inverse or eigensolver\<close>
  | TransformError      \<comment> \<open>the array library's error: a Fourier transform of size 0 or of a badly shaped array\<close>

definition bind :: "error + 'a \<Rightarrow> ('a \<Rightarrow> error + 'b) \<Rightarrow> error + 'b" where
  "bind m k = (case m of Inl e \<Rightarrow> Inl e | Inr x \<Rightarrow> k x)"

record 'd tensor =
  shape :: "nat list"
  entries :: 'd

type_synonym mat = "real list list"
type_synonym t3 = "real list list list"
type_synonym t4 = "real list list list list"
type_synonym t5 = "real list list list list list"

text \<open>\<open>sized n P xs\<close>: an axis of size \<open>n\<close> whose items all satisfy \<open>P\<close>.\<close>

definition sized :: "nat \<Rightarrow> ('a \<Rightarrow> bool) \<Rightarrow> 'a list \<Rightarrow> bool" where
  "sized n P xs = (length xs = n \<and> list_all P xs)"

definition scalar :: "real \<Rightarrow> bool" where
  "scalar x = True"

definition has_shape3 :: "t3 tensor \<Rightarrow> nat \<Rightarrow> nat \<Rightarrow> nat \<Rightarrow> bool" where
  "has_shape3 t a b c = (shape t = [a, b, c] \<and> sized a (sized b (sized c scalar)) (entries t))"

definition has_shape4 :: "t4 tensor \<Rightarrow> nat \<Rightarrow> nat \<Rightarrow> nat \<Rightarrow> nat \<Rightarrow> bool" where
  "has_shape4 t a b c d =
     (shape t = [a, b, c, d] \<and> sized a (sized b (sized c (sized d scalar))) (entries t))"

definition has_shape5 :: "t5 tensor \<Rightarrow> nat \<Rightarrow> nat \<Rightarrow> nat \<Rightarrow> nat \<Rightarrow> nat \<Rightarrow> bool" where
  "has_shape5 t a b c d e =
     (shape t = [a, b, c, d, e] \<and>
      sized a (sized b (sized c (sized d (sized e scalar)))) (entries t))"

text \<open>\<^verbatim>\<open>torch.zeros((a, b, c, d))\<close> and \<^verbatim>\<open>torch.zeros((a, b, c, d, e))\<close>.\<close>

definition zeros4 :: "nat \<Rightarrow> nat \<Rightarrow> nat \<Rightarrow> nat \<Rightarrow> t4 tensor" where
  "zeros4 a b c d =
     \<lparr>shape = [a, b, c, d], entries = replicate a (replicate b (replicate c (replicate d 0)))\<rparr>"

definition zeros5 :: "nat \<Rightarrow> nat \<Rightarrow> nat \<Rightarrow> nat \<Rightarrow> nat \<Rightarrow> t5 tensor" where
  "zeros5 a b c d e =
     \<lparr>shape = [a, b, c, d, e],
      entries = replicate a (replicate b (replicate c (replicate d (replicate e 0))))\<rparr>"

subsection \<open>Broadcasting of an assigned value\<close>

text \<open>
  An assignment \<^verbatim>\<open>x[region] = v\<close> needs \<open>v\<close> to be broadcastable to the shape of the
  region: the two shapes have the same rank here, and every axis of \<open>v\<close> has the size of the
  region's axis or size 1.  Otherwise the library raises.  \<open>stretch\<close> repeats the single item
  of an axis of size 1.
\<close>

definition broadcastable :: "nat list \<Rightarrow> nat list \<Rightarrow> bool" where
  "broadcastable vs ts = (length vs = length ts \<and> list_all2 (\<lambda>v t. v = t \<or> v = 1) vs ts)"

definition stretch :: "nat \<Rightarrow> 'a list \<Rightarrow> 'a list" where
  "stretch n xs = (if length xs = n then xs else replicate n (hd xs))"

definition stretch3 :: "nat \<Rightarrow> nat \<Rightarrow> nat \<Rightarrow> t3 \<Rightarrow> t3" where
  "stretch3 a b c x = stretch a (map (\<lambda>y. stretch b (map (stretch c) y)) x)"

definition stretch4 :: "nat \<Rightarrow> nat \<Rightarrow> nat \<Rightarrow> nat \<Rightarrow> t4 \<Rightarrow> t4" where
  "stretch4 a b c d x = stretch a (map (\<lambda>y. stretch b (map (\<lambda>z. stretch c (map (stretch d) z)) y)) x)"

subsection \<open>Selecting and assigning along the last axis\<close>

text \<open>\<^verbatim>\<open>ws[..., k]\<close> on a rank-5 array; an index beyond the last axis raises.\<close>

definition select_last :: "nat \<Rightarrow> t5 tensor \<Rightarrow> error + t4 tensor" where
  "select_last k ws =
     (if k < last (shape ws)
      then Inr \<lparr>shape = butlast (shape ws),
                entries = map (map (map (map (\<lambda>v. v ! k)))) (entries ws)\<rparr>
      else Inl IndexError)"

text \<open>\<^verbatim>\<open>ws[..., k] = v\<close> on a rank-5 array \<open>ws\<close>.\<close>

definition put_last :: "nat \<Rightarrow> t5 tensor \<Rightarrow> t4 tensor \<Rightarrow> error + t5 tensor" where
  "put_last k ws v =
     (if \<not> k < last (shape ws) then Inl IndexError
      else if \<not> broadcastable (shape v) (butlast (shape ws)) then Inl ShapeMismatch
      else Inr (ws\<lparr>entries :=
              map2 (map2 (map2 (map2 (\<lambda>x y. x[k := y]))))
                (entries ws)
                (stretch4 (shape ws ! 0) (shape ws ! 1) (shape ws ! 2) (shape ws ! 3) (entries v))\<rparr>))"

text \<open>\<^verbatim>\<open>-1 * v\<close> on a rank-4 array.\<close>

definition neg4 :: "t4 tensor \<Rightarrow> t4 tensor" where
  "neg4 v = v\<lparr>entries := map (map (map (map (\<lambda>x. -1 * x)))) (entries v)\<rparr>"

subsection \<open>Strided slices of the last two axes\<close>

text \<open>
  \<^verbatim>\<open>range(start, stop, 2)\<close>, and the indices \<^verbatim>\<open>slice(start, stop, 2)\<close> selects on an
  axis of size \<open>n\<close> (a slice is clipped to the axis).
\<close>

definition strided :: "nat \<Rightarrow> nat \<Rightarrow> nat list" where
  "strided start stop = map (\<lambda>k. start + 2 * k) [0..<(stop - start + 1) div 2]"

definition slice_indices :: "nat \<Rightarrow> nat \<Rightarrow> nat \<Rightarrow> nat list" where
  "slice_indices start stop n = strided start (min stop n)"

text \<open>
  One matrix: \<^verbatim>\<open>m[rs, cs] = v\<close> for slices with index lists \<open>rs\<close> and \<open>cs\<close> writes
  \<open>v[i][j]\<close> at row \<open>rs[i]\<close>, column \<open>cs[j]\<close>; \<^verbatim>\<open>m[rs, cs]\<close> reads the same positions.
\<close>

definition set_row :: "nat list \<Rightarrow> real list \<Rightarrow> real list \<Rightarrow> real list" where
  "set_row cs row vrow = fold (\<lambda>(c, x) r. r[c := x]) (zip cs vrow) row"

definition slice_set :: "nat list \<Rightarrow> nat list \<Rightarrow> mat \<Rightarrow> mat \<Rightarrow> mat" where
  "slice_set rs cs m v = fold (\<lambda>(r, vrow) m'. m'[r := set_row cs (m' ! r) vrow]) (zip rs v) m"

definition slice_get :: "nat list \<Rightarrow> nat list \<Rightarrow> mat \<Rightarrow> mat" where
  "slice_get rs cs m = map (\<lambda>r. map (\<lambda>c. m ! r ! c) cs) rs"

text \<open>
  \<^verbatim>\<open>wsh[..., slice(r0, stop, 2), slice(c0, stop, 2)] = v\<close> and
  \<^verbatim>\<open>wsh[..., slice(r0, stop, 2), slice(c0, stop, 2)]\<close> on a rank-4 array.
\<close>

definition slice_put :: "nat \<Rightarrow> nat \<Rightarrow> nat \<Rightarrow> t4 tensor \<Rightarrow> t4 tensor \<Rightarrow> error + t4 tensor" where
  "slice_put r0 c0 stop wsh v =
     (let rs = slice_indices r0 stop (shape wsh ! 2);
          cs = slice_indices c0 stop (shape wsh ! 3)
      in if \<not> broadcastable (shape v) [shape wsh ! 0, shape wsh ! 1, length rs, length cs]
         then Inl ShapeMismatch
         else Inr (wsh\<lparr>entries :=
                 map2 (map2 (slice_set rs cs))
                   (entries wsh)
                   (stretch4 (shape wsh ! 0) (shape wsh ! 1) (length rs) (length cs) (entries v))\<rparr>))"

definition slice_take :: "nat \<Rightarrow> nat \<Rightarrow> nat \<Rightarrow> t4 tensor \<Rightarrow> t4 tensor" where
  "slice_take r0 c0 stop wsh =
     (let rs = slice_indices r0 stop (shape wsh ! 2);
          cs = slice_indices c0 stop (shape wsh ! 3)
      in \<lparr>shape = [shape wsh ! 0, shape wsh ! 1, length rs, length cs],
          entries = map (map (slice_get rs cs)) (entries wsh)\<rparr>)"

section \<open>The codec between full complex matrices and real block matrices\<close>

text \<open>
  \<^verbatim>\<open>EigenH.g\<close>: input \<open>(B, K, C, C, 2)\<close>, output \<open>(B, K, 2C, 2C)\<close>.
\<close>

definition g :: "t5 tensor \<Rightarrow> error + t4 tensor" where
  "g ws =
     (let batch = shape ws ! 0;
          n_fft = shape ws ! 1;
          n_chan = shape ws ! 2;
          wsh = zeros4 batch n_fft (2 * n_chan) (2 * n_chan)
      in bind (select_last 0 ws) (\<lambda>re.
         bind (slice_put 0 0 (2 * n_chan) wsh re) (\<lambda>wsh.
         bind (slice_put 1 1 (2 * n_chan) wsh re) (\<lambda>wsh.
         bind (select_last 1 ws) (\<lambda>im.
         bind (slice_put 0 1 (2 * n_chan) wsh (neg4 im)) (\<lambda>wsh.
         slice_put 1 0 (2 * n_chan) wsh im))))))"

text \<open>
  \<^verbatim>\<open>EigenH.ginv\<close>: input \<open>(B, K, 2C, 2C)\<close>, output \<open>(B, K, C, C, 2)\<close>;
  \<^verbatim>\<open>int(wsh.shape[2] / 2)\<close> is the integer quotient.
\<close>

definition ginv :: "t4 tensor \<Rightarrow> error + t5 tensor" where
  "ginv wsh =
     (let batch = shape wsh ! 0;
          n_fft = shape wsh ! 1;
          n_chan = shape wsh ! 2 div 2;
          ws = zeros5 batch n_fft n_chan n_chan 2
      in bind (put_last 0 ws (slice_take 0 0 (2 * n_chan) wsh)) (\<lambda>ws.
         put_last 1 ws (slice_take 1 0 (2 * n_chan) wsh)))"


section \<open>The codec between packed Hermitian matrices and real block matrices\<close>

subsection \<open>The channel count of a packed axis\<close>

text \<open>
  \<^verbatim>\<open>int(round(((1 + 8 * p) ** 0.5 - 1) / 2))\<close>, in exact arithmetic.  Python rounds a
  tie to the even neighbour and \<open>round\<close> rounds it up; no tie occurs, since
  \<open>1 + 8 * p\<close> is odd and a tie needs it to be the square of an even number
  (\<open>n_channels_eq\<close> below gives the value without reals).
\<close>

definition n_channels_of :: "nat \<Rightarrow> nat" where
  "n_channels_of p = nat (round ((sqrt (1 + 8 * real p) - 1) / 2))"

text \<open>The integer square root, by search from above: the executable form of the above.\<close>

fun sqrt_down :: "nat \<Rightarrow> nat \<Rightarrow> nat" where
  "sqrt_down n 0 = 0"
| "sqrt_down n (Suc k) = (if Suc k * Suc k \<le> n then Suc k else sqrt_down n k)"

definition floor_sqrt :: "nat \<Rightarrow> nat" where
  "floor_sqrt n = sqrt_down n n"

subsection \<open>Index lists\<close>

text \<open>
  \<^verbatim>\<open>torch.triu_indices(r, c)\<close>: the positions \<open>(i, j)\<close>, \<open>i \<le> j\<close>, of the upper triangle
  of an \<open>r \<times> c\<close> matrix in row-major order, as the list of the row indices
  (\<^verbatim>\<open>indices[0]\<close>) and the list of the column indices (\<^verbatim>\<open>indices[1]\<close>).
\<close>

definition triu_pairs :: "nat \<Rightarrow> nat \<Rightarrow> (nat \<times> nat) list" where
  "triu_pairs r c = concat (map (\<lambda>i. map (\<lambda>j. (i, j)) [i..<c]) [0..<r])"

definition triu_indices :: "nat \<Rightarrow> nat \<Rightarrow> nat list \<times> nat list" where
  "triu_indices r c = (map fst (triu_pairs r c), map snd (triu_pairs r c))"

text \<open>
  One matrix: \<^verbatim>\<open>m[rows, cols] = vals\<close> with index lists writes \<open>vals[k]\<close> at row
  \<open>rows[k]\<close>, column \<open>cols[k]\<close>, in the order of \<open>k\<close>; \<^verbatim>\<open>m[rows, cols]\<close> reads these
  positions.
\<close>

definition scatter :: "nat list \<Rightarrow> nat list \<Rightarrow> mat \<Rightarrow> real list \<Rightarrow> mat" where
  "scatter rows cols m vals =
     fold (\<lambda>(r, c, x) m'. m'[r := (m' ! r)[c := x]]) (zip rows (zip cols vals)) m"

definition gather :: "nat list \<Rightarrow> nat list \<Rightarrow> mat \<Rightarrow> real list" where
  "gather rows cols m = map (\<lambda>(r, c). m ! r ! c) (zip rows cols)"

text \<open>
  \<^verbatim>\<open>wsh[..., rows, cols] = v\<close> and \<^verbatim>\<open>wsh[..., rows, cols]\<close> on a rank-4 array, with index
  lists of one length.  An index beyond its axis raises; so does a value that cannot be
  broadcast to the shape \<open>[B, K, length rows]\<close> of the region.
\<close>

definition in_bounds :: "nat list \<Rightarrow> nat list \<Rightarrow> t4 tensor \<Rightarrow> bool" where
  "in_bounds rows cols wsh =
     (list_all (\<lambda>r. r < shape wsh ! 2) rows \<and> list_all (\<lambda>c. c < shape wsh ! 3) cols)"

definition index_put :: "nat list \<Rightarrow> nat list \<Rightarrow> t4 tensor \<Rightarrow> t3 tensor \<Rightarrow> error + t4 tensor" where
  "index_put rows cols wsh v =
     (if \<not> in_bounds rows cols wsh then Inl IndexError
      else if \<not> broadcastable (shape v) [shape wsh ! 0, shape wsh ! 1, length rows]
      then Inl ShapeMismatch
      else Inr (wsh\<lparr>entries :=
              map2 (map2 (scatter rows cols))
                (entries wsh)
                (stretch3 (shape wsh ! 0) (shape wsh ! 1) (length rows) (entries v))\<rparr>))"

definition index_get :: "nat list \<Rightarrow> nat list \<Rightarrow> t4 tensor \<Rightarrow> error + t3 tensor" where
  "index_get rows cols wsh =
     (if \<not> in_bounds rows cols wsh then Inl IndexError
      else Inr \<lparr>shape = [shape wsh ! 0, shape wsh ! 1, length rows],
                entries = map (map (gather rows cols)) (entries wsh)\<rparr>)"

subsection \<open>Views of the packed array\<close>

text \<open>
  \<^verbatim>\<open>ws.transpose(3, 4)\<close> on a rank-5 array: the last two axes are exchanged.
\<close>

definition swap_axes :: "nat \<Rightarrow> real list list \<Rightarrow> real list list" where
  "swap_axes e m = map (\<lambda>j. map (\<lambda>row. row ! j) m) [0..<e]"

definition transpose34 :: "t5 tensor \<Rightarrow> t5 tensor" where
  "transpose34 ws =
     \<lparr>shape = [shape ws ! 0, shape ws ! 1, shape ws ! 2, shape ws ! 4, shape ws ! 3],
      entries = map (map (map (swap_axes (shape ws ! 4)))) (entries ws)\<rparr>"

text \<open>
  \<^verbatim>\<open>.squeeze(1)\<close> on a rank-5 array: an axis 1 of size 1 is dropped (\<open>drop_axis1\<close>), and an
  axis 1 of another size is left, so that the array keeps its five axes (\<open>None\<close>: no array
  of rank 4 results).
\<close>

definition drop_axis1 :: "t5 tensor \<Rightarrow> t4 tensor" where
  "drop_axis1 ws =
     \<lparr>shape = [shape ws ! 0, shape ws ! 2, shape ws ! 3, shape ws ! 4],
      entries = map hd (entries ws)\<rparr>"

definition squeeze1 :: "t5 tensor \<Rightarrow> t4 tensor option" where
  "squeeze1 ws = (if shape ws ! 1 = 1 then Some (drop_axis1 ws) else None)"

text \<open>\<^verbatim>\<open>ws[..., k]\<close> on a rank-4 array, and \<^verbatim>\<open>-1 * v\<close> on a rank-3 array.\<close>

definition select_last4 :: "nat \<Rightarrow> t4 tensor \<Rightarrow> error + t3 tensor" where
  "select_last4 k ws =
     (if k < last (shape ws)
      then Inr \<lparr>shape = butlast (shape ws), entries = map (map (map (\<lambda>v. v ! k))) (entries ws)\<rparr>
      else Inl IndexError)"

definition neg3 :: "t3 tensor \<Rightarrow> t3 tensor" where
  "neg3 v = v\<lparr>entries := map (map (map (\<lambda>x. -1 * x))) (entries v)\<rparr>"

text \<open>
  \<^verbatim>\<open>ws[:, 0, :, c, :] = v\<close> on a rank-5 array \<open>ws\<close> of shape \<open>(B, N, K, D, P)\<close>: the region
  has the shape \<open>(B, K, P)\<close>.
\<close>

definition put_component :: "nat \<Rightarrow> t5 tensor \<Rightarrow> t3 tensor \<Rightarrow> error + t5 tensor" where
  "put_component c ws v =
     (if \<not> (0 < shape ws ! 1 \<and> c < shape ws ! 3) then Inl IndexError
      else if \<not> broadcastable (shape v) [shape ws ! 0, shape ws ! 2, shape ws ! 4]
      then Inl ShapeMismatch
      else Inr (ws\<lparr>entries :=
              map2 (\<lambda>x vb. x[0 := map2 (\<lambda>y vk. y[c := vk]) (x ! 0) vb])
                (entries ws)
                (stretch3 (shape ws ! 0) (shape ws ! 2) (shape ws ! 4) (entries v))\<rparr>))"

subsection \<open>The codec\<close>

text \<open>
  \<^verbatim>\<open>EigenH.f\<close>: input \<open>(B, 1, K, 2, P)\<close>, output \<open>(B, K, 2C, 2C)\<close>.  The eight assignments
  run in the order of the source.  When \<^verbatim>\<open>squeeze(1)\<close> leaves axis 1, the array \<^verbatim>\<open>ws[..., 0]\<close>
  has four axes and the positions assigned to have three, one for each leading axis of
  \<^verbatim>\<open>wsh\<close> and one for the index list: the first assignment raises, as the values cannot be
  broadcast to the positions.
\<close>

definition f :: "t5 tensor \<Rightarrow> error + t4 tensor" where
  "f ws0 =
     (case squeeze1 (transpose34 ws0) of
        None \<Rightarrow> Inl ShapeMismatch
      | Some ws \<Rightarrow>
      let batch = shape ws ! 0;
          n_fft = shape ws ! 1;
          p = shape ws ! 2;
          n_channels = n_channels_of p;
          wsh = zeros4 batch n_fft (2 * n_channels) (2 * n_channels);
          indices = triu_indices n_channels n_channels;
          i0 = fst indices;
          i1 = snd indices;
          ev = map (\<lambda>i. i * 2);
          od = map (\<lambda>i. i * 2 + 1)
      in bind (select_last4 0 ws) (\<lambda>re.
         bind (index_put (ev i1) (ev i0) wsh re) (\<lambda>wsh.
         bind (index_put (ev i0) (ev i1) wsh re) (\<lambda>wsh.
         bind (index_put (od i1) (od i0) wsh re) (\<lambda>wsh.
         bind (index_put (od i0) (od i1) wsh re) (\<lambda>wsh.
         bind (select_last4 1 ws) (\<lambda>im.
         bind (index_put (ev i0) (od i1) wsh (neg3 im)) (\<lambda>wsh.
         bind (index_put (od i1) (ev i0) wsh (neg3 im)) (\<lambda>wsh.
         bind (index_put (od i0) (ev i1) wsh im) (\<lambda>wsh.
         index_put (ev i1) (od i0) wsh im))))))))))"

text \<open>
  \<^verbatim>\<open>EigenH.finv\<close>: input \<open>(B, K, 2C, 2C)\<close>, output \<open>(B, 1, K, 2, P)\<close>;
  \<^verbatim>\<open>int(wsh.shape[2] / 2)\<close> and \<^verbatim>\<open>int(n * (n + 1) / 2)\<close> are the integer quotients.
\<close>

definition finv :: "t4 tensor \<Rightarrow> error + t5 tensor" where
  "finv wsh =
     (let batch = shape wsh ! 0;
          n_fft = shape wsh ! 1;
          n_channels = shape wsh ! 2 div 2;
          p = n_channels * (n_channels + 1) div 2;
          ws = zeros5 batch 1 n_fft 2 p;
          indices = triu_indices n_channels n_channels;
          i0 = fst indices;
          i1 = snd indices;
          ev = map (\<lambda>i. i * 2);
          od = map (\<lambda>i. i * 2 + 1)
      in bind (index_get (ev i0) (ev i1) wsh) (\<lambda>re.
         bind (put_component 0 ws re) (\<lambda>ws.
         bind (index_get (ev i0) (od i1) wsh) (\<lambda>im.
         put_component 1 ws (neg3 im)))))"

text \<open>\<^verbatim>\<open>torch.transpose(x, 2, 3)\<close> on a rank-4 array.\<close>

definition transpose23 :: "t4 tensor \<Rightarrow> t4 tensor" where
  "transpose23 x =
     \<lparr>shape = [shape x ! 0, shape x ! 1, shape x ! 3, shape x ! 2],
      entries = map (map (swap_axes (shape x ! 3))) (entries x)\<rparr>"

text \<open>
  A packed array is Hermitian-consistent when the imaginary part of every diagonal entry
  (a packed position whose index pair has \<open>i = j\<close>) is zero.
\<close>

definition diag_imag_zero :: "nat \<Rightarrow> real list \<Rightarrow> bool" where
  "diag_imag_zero n im = list_all (\<lambda>((i, j), x). i = j \<longrightarrow> x = 0) (zip (triu_pairs n n) im)"

definition hermitian_consistent :: "t5 tensor \<Rightarrow> bool" where
  "hermitian_consistent a =
     list_all (list_all (list_all (\<lambda>x. diag_imag_zero (n_channels_of (shape a ! 4)) (x ! 1))))
       (entries a)"


section \<open>The generalised eigenvalue decomposition\<close>

text \<open>
  The dense linear algebra that \<^verbatim>\<open>EigenH.forward\<close> calls is external to the module:
  \<^verbatim>\<open>torch.cholesky\<close>, \<^verbatim>\<open>torch.inverse\<close>, \<^verbatim>\<open>torch.matmul\<close> and \<^verbatim>\<open>torch.symeig\<close>
  (eigenvalues of shape \<open>(B, K, 2C)\<close> and eigenvectors).  They are parameters of the model,
  each free to fail.
\<close>

record linalg =
  cholesky :: "t4 tensor \<Rightarrow> error + t4 tensor"
  inverse :: "t4 tensor \<Rightarrow> error + t4 tensor"
  matmul :: "t4 tensor \<Rightarrow> t4 tensor \<Rightarrow> error + t4 tensor"
  symeig :: "t4 tensor \<Rightarrow> error + (t3 tensor \<times> t4 tensor)"

text \<open>
  \<^verbatim>\<open>torch.stack((torch.eye(n), torch.zeros((n, n))), -1)\<close>: the complex identity matrix, of
  shape \<open>(n, n, 2)\<close>.
\<close>

definition eye_complex :: "nat \<Rightarrow> real list list list" where
  "eye_complex n = map (\<lambda>i. map (\<lambda>j. [if i = j then 1 else 0, 0]) [0..<n]) [0..<n]"

text \<open>\<^verbatim>\<open>torch.stack(n * [b], 0)\<close>: a stack of an empty list raises.\<close>

definition stack_copies :: "nat \<Rightarrow> 'a \<Rightarrow> error + 'a list" where
  "stack_copies n b = (if n = 0 then Inl EmptyStack else Inr (replicate n b))"

text \<open>\<^verbatim>\<open>EigenH.forward\<close>, with \<open>b\<close> absent (\<open>None\<close>) or a packed array.\<close>

definition forward :: "linalg \<Rightarrow> t5 tensor \<Rightarrow> t5 tensor option \<Rightarrow> error + (t5 tensor \<times> t5 tensor)" where
  "forward la a b =
     (let batch = shape a ! 0;
          n_fft = shape a ! 2;
          p = shape a ! 4;
          n_channels = n_channels_of p
      in bind (f a) (\<lambda>ash.
         bind (case b of
                 None \<Rightarrow>
                   bind (stack_copies n_fft (eye_complex n_channels)) (\<lambda>b1.
                   bind (stack_copies batch b1) (\<lambda>b2.
                   g \<lparr>shape = [batch, n_fft, n_channels, n_channels, 2], entries = b2\<rparr>))
               | Some b' \<Rightarrow> f b') (\<lambda>bsh.
         bind (cholesky la bsh) (\<lambda>lsh.
         bind (inverse la lsh) (\<lambda>lsh_inv.
         let lsh_inv_T = transpose23 lsh_inv
         in bind (matmul la ash lsh_inv_T) (\<lambda>prod.
            bind (matmul la lsh_inv prod) (\<lambda>csh.
            bind (symeig la csh) (\<lambda>(es, ysh).
            let dsh = zeros4 batch n_fft (2 * n_channels) (2 * n_channels)
            in bind (index_put [0..<2 * n_channels] [0..<2 * n_channels] dsh es) (\<lambda>dsh.
               bind (matmul la lsh_inv_T (transpose23 ysh)) (\<lambda>vsh.
               bind (ginv vsh) (\<lambda>vs.
               bind (ginv dsh) (\<lambda>ds.
               Inr (vs, ds)))))))))))))"

text \<open>
  The packed Hermitian encoding of the identity matrix for every batch item and bin: real
  part 1 at the diagonal positions of the packed axis, 0 elsewhere, imaginary part 0.
\<close>

definition identity_packed :: "nat \<Rightarrow> nat \<Rightarrow> nat \<Rightarrow> t5 tensor" where
  "identity_packed batch n_fft n =
     \<lparr>shape = [batch, 1, n_fft, 2, n * (n + 1) div 2],
      entries = replicate batch [replicate n_fft
        [map (\<lambda>(i, j). if i = j then 1 else 0) (triu_pairs n n),
         replicate (n * (n + 1) div 2) 0]]\<rparr>"


text \<open>
  The steps of \<^verbatim>\<open>forward\<close> up to the call of the eigensolver, in the order of the source:
  the block form \<open>ash\<close> of \<open>a\<close>, the block form \<open>bsh\<close> of \<open>b\<close> (or of the identity), the
  Cholesky factor \<open>lsh\<close> of \<open>bsh\<close>, its inverse and the transposed inverse, and the whitened
  matrix \<^verbatim>\<open>csh = matmul(lsh_inv, matmul(ash, lsh_inv_T))\<close>.  The result is the pair of
  \<open>csh\<close>, the matrix handed to the eigensolver, and \<open>lsh_inv_T\<close>.
\<close>

definition whitened :: "linalg \<Rightarrow> t5 tensor \<Rightarrow> t5 tensor option \<Rightarrow> error + (t4 tensor \<times> t4 tensor)" where
  "whitened la a b =
     (let batch = shape a ! 0;
          n_fft = shape a ! 2;
          p = shape a ! 4;
          n_channels = n_channels_of p
      in bind (f a) (\<lambda>ash.
         bind (case b of
                 None \<Rightarrow>
                   bind (stack_copies n_fft (eye_complex n_channels)) (\<lambda>b1.
                   bind (stack_copies batch b1) (\<lambda>b2.
                   g \<lparr>shape = [batch, n_fft, n_channels, n_channels, 2], entries = b2\<rparr>))
               | Some b' \<Rightarrow> f b') (\<lambda>bsh.
         bind (cholesky la bsh) (\<lambda>lsh.
         bind (inverse la lsh) (\<lambda>lsh_inv.
         let lsh_inv_T = transpose23 lsh_inv
         in bind (matmul la ash lsh_inv_T) (\<lambda>prod.
            bind (matmul la lsh_inv prod) (\<lambda>csh.
            Inr (csh, lsh_inv_T))))))))"

text \<open>
  An instance of the linear algebra for a problem whose reference matrix is the identity and
  whose matrix is diagonal with ascending entries: the Cholesky factor of the identity and
  its inverse are the identity, the product of matrices is the exact one, and the
  eigenvalues of a diagonal matrix are its diagonal, with the unit vectors as eigenvectors.
\<close>

definition mat_mul :: "real list list \<Rightarrow> real list list \<Rightarrow> real list list" where
  "mat_mul x y =
     map (\<lambda>row. map (\<lambda>j. sum_list (map2 (*) row (map (\<lambda>r. r ! j) y))) [0..<length (hd y)]) x"

definition matmul_exact :: "t4 tensor \<Rightarrow> t4 tensor \<Rightarrow> error + t4 tensor" where
  "matmul_exact x y =
     (if \<not> (take 2 (shape x) = take 2 (shape y) \<and> shape x ! 3 = shape y ! 2) then Inl ShapeMismatch
      else Inr \<lparr>shape = [shape x ! 0, shape x ! 1, shape x ! 2, shape y ! 3],
                entries = map2 (map2 mat_mul) (entries x) (entries y)\<rparr>)"

definition diagonal_linalg :: linalg where
  "diagonal_linalg =
     \<lparr>cholesky = Inr, inverse = Inr, matmul = matmul_exact,
      symeig = (\<lambda>m. Inr
        (\<lparr>shape = butlast (shape m),
          entries = map (map (\<lambda>x. map (\<lambda>i. x ! i ! i) [0..<length x])) (entries m)\<rparr>,
         \<lparr>shape = shape m,
          entries = map (map (\<lambda>x. map (\<lambda>i. map (\<lambda>j. if i = j then 1 else 0) [0..<length x])
                                    [0..<length x])) (entries m)\<rparr>))\<rparr>"

section \<open>The positive-definiteness regulariser\<close>

text \<open>
  \<^verbatim>\<open>EigenH.pos_def\<close> clones its argument and updates the clone in place.  To state that
  the argument itself is left alone, arrays live in a store: a list of arrays, an array
  being referred to by its position.  \<^verbatim>\<open>ws.clone()\<close> allocates a new array at the end of
  the store.
\<close>

type_synonym store = "t5 tensor list"

text \<open>
  The arithmetic of \<^verbatim>\<open>pos_def\<close> is the floating-point arithmetic of the array: every
  operation returns the number of the array's type that the library rounds to, and
  \<^verbatim>\<open>torch.sum\<close> adds in an order of its own.  The operations are parameters of the model:
  the product of the number \<open>alpha\<close> and an entry, the sum of an entry and the number
  \<open>eps\<close>, the sum of two entries, and the sum of a list of entries.  The entries of an array
  are the real numbers that its (finite) floating-point numbers stand for.
\<close>

record arith =
  mul_scalar :: "real \<Rightarrow> real \<Rightarrow> real"
  add_scalar :: "real \<Rightarrow> real \<Rightarrow> real"
  add_entry :: "real \<Rightarrow> real \<Rightarrow> real"
  sum_entries :: "real list \<Rightarrow> real"

definition clone :: "store \<Rightarrow> nat \<Rightarrow> store \<times> nat" where
  "clone h r = (h @ [h ! r], length h)"

text \<open>
  A boolean mask on the last axis: \<^verbatim>\<open>xs[mask]\<close> keeps the entries at the \<open>True\<close>
  positions, and \<^verbatim>\<open>xs[mask] += vs\<close> adds the values \<open>vs\<close>, in order, to the entries at the
  \<open>True\<close> positions, with the addition \<open>add\<close> of the array's type.
\<close>

definition select_mask :: "bool list \<Rightarrow> real list \<Rightarrow> real list" where
  "select_mask msk xs = map snd (filter fst (zip msk xs))"

fun add_mask :: "(real \<Rightarrow> real \<Rightarrow> real) \<Rightarrow> bool list \<Rightarrow> real list \<Rightarrow> real list \<Rightarrow> real list" where
  "add_mask add (True # msk) (x # xs) (v # vs) = add x v # add_mask add msk xs vs"
| "add_mask add (False # msk) (x # xs) vs = x # add_mask add msk xs vs"
| "add_mask add msk xs vs = xs"

text \<open>
  \<^verbatim>\<open>ws[..., 0, mask]\<close> on a rank-5 array: component 0 of axis 3 and the masked entries of
  axis 4, of shape \<open>(B, N, K, count)\<close>.  A mask whose length is not the size of axis 4
  raises.
\<close>

definition count_true :: "bool list \<Rightarrow> nat" where
  "count_true msk = length (filter (\<lambda>m. m) msk)"

definition masked_select0 :: "t5 tensor \<Rightarrow> bool list \<Rightarrow> error + t4 tensor" where
  "masked_select0 ws msk =
     (if \<not> (0 < shape ws ! 3 \<and> length msk = shape ws ! 4) then Inl IndexError
      else Inr \<lparr>shape = [shape ws ! 0, shape ws ! 1, shape ws ! 2, count_true msk],
                entries = map (map (map (\<lambda>x. select_mask msk (x ! 0)))) (entries ws)\<rparr>)"

text \<open>
  \<^verbatim>\<open>torch.sum(x, 3)\<close> on a rank-4 array, \<^verbatim>\<open>x.unsqueeze(3).repeat(1, 1, 1, n)\<close> on a rank-3
  array, and \<^verbatim>\<open>alpha * x + eps\<close> on a rank-4 array.
\<close>

definition sum3 :: "arith \<Rightarrow> t4 tensor \<Rightarrow> t3 tensor" where
  "sum3 ar x =
     \<lparr>shape = butlast (shape x), entries = map (map (map (sum_entries ar))) (entries x)\<rparr>"

definition unsqueeze_repeat :: "nat \<Rightarrow> t3 tensor \<Rightarrow> t4 tensor" where
  "unsqueeze_repeat n x =
     \<lparr>shape = shape x @ [n], entries = map (map (map (\<lambda>s. replicate n s))) (entries x)\<rparr>"

definition scale_shift :: "arith \<Rightarrow> real \<Rightarrow> real \<Rightarrow> t4 tensor \<Rightarrow> t4 tensor" where
  "scale_shift ar alpha eps x =
     x\<lparr>entries :=
         map (map (map (map (\<lambda>s. add_scalar ar (mul_scalar ar alpha s) eps)))) (entries x)\<rparr>"

text \<open>
  \<^verbatim>\<open>ws_pf[..., 0, mask] += v\<close> on the array at position \<open>r\<close> of the store: the array is
  updated in place.
\<close>

definition masked_add0 :: "arith \<Rightarrow> store \<Rightarrow> nat \<Rightarrow> bool list \<Rightarrow> t4 tensor \<Rightarrow> error + store" where
  "masked_add0 ar h r msk v =
     (let ws = h ! r
      in if \<not> (0 < shape ws ! 3 \<and> length msk = shape ws ! 4) then Inl IndexError
         else if \<not> broadcastable (shape v) [shape ws ! 0, shape ws ! 1, shape ws ! 2, count_true msk]
         then Inl ShapeMismatch
         else Inr (h[r := ws\<lparr>entries :=
                 map2 (map2 (map2 (\<lambda>x vs. x[0 := add_mask (add_entry ar) msk (x ! 0) vs])))
                   (entries ws)
                   (stretch4 (shape ws ! 0) (shape ws ! 1) (shape ws ! 2) (count_true msk)
                      (entries v))\<rparr>]))"

text \<open>
  \<^verbatim>\<open>EigenH.pos_def\<close>: the argument is the array at position \<open>ws\<close> of the store; the result
  is the new store and the position of the returned array.
\<close>

definition pos_def :: "arith \<Rightarrow> store \<Rightarrow> nat \<Rightarrow> real \<Rightarrow> real \<Rightarrow> error + (store \<times> nat)" where
  "pos_def ar h ws alpha eps =
     (let p = shape (h ! ws) ! 4;
          n_channels = n_channels_of p;
          indices_triu = triu_indices n_channels n_channels;
          indices_diag = map2 (\<lambda>i j. i = j) (fst indices_triu) (snd indices_triu)
      in bind (masked_select0 (h ! ws) indices_diag) (\<lambda>diag.
         let trace = sum3 ar diag;
             trace = unsqueeze_repeat n_channels trace;
             (h', ws_pf) = clone h ws
         in bind (masked_add0 ar h' ws_pf indices_diag (scale_shift ar alpha eps trace)) (\<lambda>h''.
            Inr (h'', ws_pf))))"

text \<open>
  The real diagonal entries of one packed matrix, in the order of the packed axis: the
  entries at the positions whose index pair has \<open>i = j\<close>.
\<close>

definition packed_diagonal :: "nat \<Rightarrow> real list \<Rightarrow> real list" where
  "packed_diagonal n re = map snd (filter (\<lambda>((i, j), x). i = j) (zip (triu_pairs n n) re))"

text \<open>
  An instance of the arithmetic in which a summand is lost when it is smaller than
  \<open>1 / 2 ^ 25\<close> times the other one, as it is when a sum is rounded to the nearest number
  with 24 significant bits; products and the sums of lists are exact.
\<close>

definition absorbing_add :: "real \<Rightarrow> real \<Rightarrow> real" where
  "absorbing_add x y =
     (if \<bar>y\<bar> * 2 ^ 25 < \<bar>x\<bar> then x else if \<bar>x\<bar> * 2 ^ 25 < \<bar>y\<bar> then y else x + y)"

definition absorbing_arith :: arith where
  "absorbing_arith =
     \<lparr>mul_scalar = (*), add_scalar = absorbing_add, add_entry = absorbing_add,
      sum_entries = sum_list\<rparr>"

section \<open>The notch filter\<close>

text \<open>
  \<^verbatim>\<open>torch.arange(n)\<close> for an integer \<open>n\<close>: the integers from 0 below \<open>n\<close>; a negative \<open>n\<close>
  raises (the bounds are inconsistent with the step).
\<close>

definition arange :: "int \<Rightarrow> error + int list" where
  "arange n = (if n < 0 then Inl RangeError else Inr (map int [0..<nat n]))"

text \<open>\<^verbatim>\<open>torch.blackman_window(n)\<close>, the periodic window of the array library.\<close>

definition blackman_window :: "nat \<Rightarrow> real list" where
  "blackman_window n =
     (if n = 1 then [1]
      else map (\<lambda>k. 42 / 100 - 1 / 2 * cos (2 * pi * real k / real n)
                      + 8 / 100 * cos (4 * pi * real k / real n)) [0..<n])"

text \<open>
  The local function \<^verbatim>\<open>sinc\<close> of \<^verbatim>\<open>notch_filter\<close>: \<open>sin x / x\<close> on both sides of the
  middle index \<open>pad\<close>, and 1 at the middle.
\<close>

definition sinc :: "nat \<Rightarrow> real list \<Rightarrow> real list" where
  "sinc pad x = map (\<lambda>v. sin v / v) (take pad x) @ [1] @ map (\<lambda>v. sin v / v) (drop (pad + 1) x)"

text \<open>
  \<^verbatim>\<open>notch_filter(notch_freq, filter_width, notch_width)\<close>.  The two \<^verbatim>\<open>assert\<close> statements
  come first; \<open>%\<close> and \<open>//\<close> are the floor operations of Python, as \<open>mod\<close> and \<open>div\<close> are on
  \<open>int\<close>.  The kernel is computed in exact arithmetic (a division by zero raises nothing
  on arrays of floating-point numbers either).  The result is the kernel viewed with the
  shape \<open>(1, n, 1)\<close>.
\<close>

definition notch_filter :: "real \<Rightarrow> int \<Rightarrow> real \<Rightarrow> error + t3 tensor" where
  "notch_filter notch_freq filter_width notch_width =
     (if \<not> (0 < notch_freq \<and> notch_freq \<le> 1) then Inl AssertionError
      else if \<not> filter_width mod 2 \<noteq> 0 then Inl AssertionError
      else
        let pad = filter_width div 2
        in bind (arange filter_width) (\<lambda>ar.
           let inputs = map (\<lambda>i. real_of_int (i - pad)) ar;
               notch_freq' = notch_freq + notch_width;
               hlpf = sinc (nat pad) (map (\<lambda>v. 3 * (notch_freq' - notch_width) * v) inputs);
               hlpf = map2 (*) hlpf (blackman_window (nat filter_width));
               hlpf = map (\<lambda>v. v / sum_list hlpf) hlpf;
               hhpf = sinc (nat pad) (map (\<lambda>v. 3 * (notch_freq' + notch_width) * v) inputs);
               hhpf = map2 (*) hhpf (blackman_window (nat filter_width));
               hhpf = map (\<lambda>v. v / - sum_list hhpf) hhpf;
               hhpf = hhpf[nat pad := hhpf ! nat pad + 1];
               kern = map2 (+) hlpf hhpf
           in Inr \<lparr>shape = [1, length kern, 1], entries = [map (\<lambda>v. [v]) kern]\<rparr>))"

section \<open>Convolution\<close>

text \<open>
  The padding argument of \<^verbatim>\<open>convolve1d\<close> is an integer or a tuple \<open>(left, right)\<close>.
\<close>

datatype padding = PadInt int | PadTuple int int

text \<open>
  The primitives of the array library that \<^verbatim>\<open>convolve1d\<close> calls are parameters of the
  model: \<^verbatim>\<open>torch.nn.functional.pad\<close> (input, pad, mode), \<^verbatim>\<open>torch.rfft(x, 1)\<close> (a last
  axis of size 2 for the real and the imaginary part), \<^verbatim>\<open>torch.irfft(x, 1)\<close> and
  \<^verbatim>\<open>torch.nn.functional.conv1d\<close> (input, weight, stride, groups, padding).  The two
  transforms have an instance further below, written from the documentation of the library.
\<close>

record conv_prims =
  pad_prim :: "t3 tensor \<Rightarrow> int \<times> int \<Rightarrow> string \<Rightarrow> error + t3 tensor"
  rfft :: "t3 tensor \<Rightarrow> error + t4 tensor"
  irfft :: "t4 tensor \<Rightarrow> error + t3 tensor"
  conv1d :: "t3 tensor \<Rightarrow> t3 tensor \<Rightarrow> int \<Rightarrow> int \<Rightarrow> int \<Rightarrow> error + t3 tensor"

text \<open>\<^verbatim>\<open>x.transpose(2, 1)\<close> on a rank-3 array.\<close>

definition transpose12 :: "t3 tensor \<Rightarrow> t3 tensor" where
  "transpose12 x =
     \<lparr>shape = [shape x ! 0, shape x ! 2, shape x ! 1],
      entries = map (swap_axes (shape x ! 2)) (entries x)\<rparr>"

text \<open>
  Python slices of the last axis of a rank-3 array, \<^verbatim>\<open>x[..., :i]\<close> and \<^verbatim>\<open>x[..., i:]\<close>: a
  negative bound counts from the end, and a bound is clipped to the axis.
\<close>

definition slice_bound :: "int \<Rightarrow> nat \<Rightarrow> nat" where
  "slice_bound i n = (if i < 0 then nat (max 0 (int n + i)) else min (nat i) n)"

definition slice_to :: "int \<Rightarrow> t3 tensor \<Rightarrow> t3 tensor" where
  "slice_to i x =
     \<lparr>shape = [shape x ! 0, shape x ! 1, slice_bound i (shape x ! 2)],
      entries = map (map (take (slice_bound i (shape x ! 2)))) (entries x)\<rparr>"

definition slice_from :: "int \<Rightarrow> t3 tensor \<Rightarrow> t3 tensor" where
  "slice_from i x =
     \<lparr>shape = [shape x ! 0, shape x ! 1, shape x ! 2 - slice_bound i (shape x ! 2)],
      entries = map (map (drop (slice_bound i (shape x ! 2)))) (entries x)\<rparr>"

definition zeros3 :: "nat \<Rightarrow> nat \<Rightarrow> nat \<Rightarrow> t3 tensor" where
  "zeros3 a b c = \<lparr>shape = [a, b, c], entries = replicate a (replicate b (replicate c 0))\<rparr>"

text \<open>\<^verbatim>\<open>torch.cat((x, y, z), dim=-1)\<close>: the leading axes must agree.\<close>

definition cat3 :: "t3 tensor \<Rightarrow> t3 tensor \<Rightarrow> t3 tensor \<Rightarrow> error + t3 tensor" where
  "cat3 x y z =
     (if \<not> (take 2 (shape x) = take 2 (shape y) \<and> take 2 (shape y) = take 2 (shape z))
      then Inl ShapeMismatch
      else Inr \<lparr>shape = [shape x ! 0, shape x ! 1, shape x ! 2 + shape y ! 2 + shape z ! 2],
                entries = map2 (map2 (@)) (map2 (map2 (@)) (entries x) (entries y)) (entries z)\<rparr>)"

text \<open>
  An elementwise operation on two rank-3 arrays, with broadcasting: the sizes of an axis
  agree or one of them is 1.
\<close>

definition broadcast_shape :: "nat list \<Rightarrow> nat list \<Rightarrow> nat list option" where
  "broadcast_shape s t =
     (if length s = length t \<and> list_all2 (\<lambda>a b. a = b \<or> a = 1 \<or> b = 1) s t
      then Some (map2 (\<lambda>a b. if a = 1 then b else a) s t) else None)"

definition elementwise :: "(real \<Rightarrow> real \<Rightarrow> real) \<Rightarrow> t3 tensor \<Rightarrow> t3 tensor \<Rightarrow> error + t3 tensor" where
  "elementwise op x y =
     (case broadcast_shape (shape x) (shape y) of
        None \<Rightarrow> Inl ShapeMismatch
      | Some s \<Rightarrow>
          Inr \<lparr>shape = s,
               entries = map2 (map2 (map2 op))
                 (stretch3 (s ! 0) (s ! 1) (s ! 2) (entries x))
                 (stretch3 (s ! 0) (s ! 1) (s ! 2) (entries y))\<rparr>)"

text \<open>
  \<^verbatim>\<open>re, im = x.unbind(-1)\<close> on a rank-4 array (the last axis must have size 2 for the
  unpacking), and \<^verbatim>\<open>torch.stack([re, im], dim=-1)\<close>.
\<close>

definition unbind2 :: "t4 tensor \<Rightarrow> error + (t3 tensor \<times> t3 tensor)" where
  "unbind2 x =
     (if last (shape x) \<noteq> 2 then Inl ValueError
      else Inr (\<lparr>shape = butlast (shape x), entries = map (map (map (\<lambda>v. v ! 0))) (entries x)\<rparr>,
                \<lparr>shape = butlast (shape x), entries = map (map (map (\<lambda>v. v ! 1))) (entries x)\<rparr>))"

definition stack2 :: "t3 tensor \<Rightarrow> t3 tensor \<Rightarrow> error + t4 tensor" where
  "stack2 x y =
     (if shape x \<noteq> shape y then Inl ShapeMismatch
      else Inr \<lparr>shape = shape x @ [2],
                entries = map2 (map2 (map2 (\<lambda>a b. [a, b]))) (entries x) (entries y)\<rparr>)"

text \<open>
  The branch \<^verbatim>\<open>if use_fft:\<close> of \<^verbatim>\<open>convolve1d\<close>, on the waveform and the kernel (\<open>kern\<close>)
  with the time axis last.
\<close>

definition fft_convolve :: "conv_prims \<Rightarrow> t3 tensor \<Rightarrow> t3 tensor \<Rightarrow> int \<Rightarrow> error + t3 tensor" where
  "fft_convolve pr waveform kern rotation_index =
     (let zero_length = int (shape waveform ! 2) - int (shape kern ! 2);
          kern = (if zero_length < 0 then slice_to zero_length kern else kern);
          zero_length = (if zero_length < 0 then 0 else zero_length);
          zeros = zeros3 (shape kern ! 0) (shape kern ! 1) (nat zero_length);
          after_index = slice_from rotation_index kern;
          before_index = slice_to rotation_index kern
      in bind (cat3 after_index zeros before_index) (\<lambda>kern.
         bind (rfft pr waveform) (\<lambda>f_signal.
         bind (rfft pr kern) (\<lambda>f_kernel.
         bind (unbind2 f_signal) (\<lambda>(sig_real, sig_imag).
         bind (unbind2 f_kernel) (\<lambda>(ker_real, ker_imag).
         bind (elementwise (*) sig_real ker_real) (\<lambda>rr.
         bind (elementwise (*) sig_imag ker_imag) (\<lambda>ii.
         bind (elementwise (-) rr ii) (\<lambda>re.
         bind (elementwise (*) sig_real ker_imag) (\<lambda>ri.
         bind (elementwise (*) sig_imag ker_real) (\<lambda>ir.
         bind (elementwise (+) ri ir) (\<lambda>im.
         bind (stack2 re im) (\<lambda>f_result.
         bind (irfft pr f_result) (\<lambda>convolved.
         Inr (if shape convolved ! 2 > shape waveform ! 2
              then slice_to (int (shape waveform ! 2)) convolved
              else convolved)))))))))))))))"

text \<open>
  \<^verbatim>\<open>convolve1d\<close>.  The rank of the waveform is checked; \<^verbatim>\<open>kernel.transpose(2, 1)\<close> raises
  on a kernel with fewer than three axes.  The waveform is padded by the padding primitive
  only under \<^verbatim>\<open>isinstance(padding, tuple)\<close>; an integer padding is an argument of
  \<^verbatim>\<open>conv1d\<close> in the \<^verbatim>\<open>else\<close> branch only.
\<close>

definition convolve1d ::
  "conv_prims \<Rightarrow> t3 tensor \<Rightarrow> t3 tensor \<Rightarrow> padding \<Rightarrow> string \<Rightarrow> int \<Rightarrow> int \<Rightarrow> bool \<Rightarrow> int \<Rightarrow>
   error + t3 tensor" where
  "convolve1d pr waveform kern padding pad_type stride groups use_fft rotation_index =
     (if length (shape waveform) \<noteq> 3 then Inl ValueError
      else if length (shape kern) < 3 then Inl IndexError
      else
        let waveform = transpose12 waveform;
            kern = transpose12 kern
        in bind (case padding of
                   PadTuple l r \<Rightarrow> pad_prim pr waveform (l, r) pad_type
                 | PadInt n \<Rightarrow> Inr waveform) (\<lambda>waveform.
           bind (if use_fft then fft_convolve pr waveform kern rotation_index
                 else conv1d pr waveform kern stride groups
                        (case padding of PadInt n \<Rightarrow> n | PadTuple l r \<Rightarrow> 0)) (\<lambda>convolved.
           Inr (transpose12 convolved))))"


text \<open>
  \<^verbatim>\<open>torch.rfft(x, 1)\<close> and \<^verbatim>\<open>torch.irfft(x, 1)\<close> as the array library documents them, with
  the default arguments of the two calls (not normalised, one-sided, no \<^verbatim>\<open>signal_sizes\<close>),
  in ideal arithmetic.

  The transform of a real signal \<open>x\<close> of size \<open>N\<close> has the \<open>N div 2 + 1\<close> frequencies
  \<open>k = 0, \<dots>, N div 2\<close>, each a pair of the real and the imaginary part of
  \<open>\<Sum>n<N. x[n] exp (- 2 \<pi> i k n / N)\<close>.

  The inverse transform of \<open>M\<close> frequencies is a real signal of size \<open>L = 2 (M - 1)\<close>: the
  one-sided transform does not record whether the signal had the size \<open>2 (M - 1)\<close> or
  \<open>2 (M - 1) + 1\<close>, and without \<^verbatim>\<open>signal_sizes\<close> the library takes the even one.  The
  frequencies \<open>k \<ge> M\<close> are the complex conjugates of the frequencies \<open>L - k\<close>, and
  \<open>y[n]\<close> is the real part of \<open>(\<Sum>k<L. X[k] exp (2 \<pi> i k n / L)) / L\<close>.  A transform of
  an empty signal, of an array whose last axis is not a pair, or to an empty signal raises.
\<close>

definition dft_bin :: "real list \<Rightarrow> nat \<Rightarrow> real list" where
  "dft_bin x k =
     [sum_list (map (\<lambda>n. x ! n * cos (2 * pi * real k * real n / real (length x)))
        [0..<length x]),
      - sum_list (map (\<lambda>n. x ! n * sin (2 * pi * real k * real n / real (length x)))
        [0..<length x])]"

definition rfft_signal :: "real list \<Rightarrow> real list list" where
  "rfft_signal x = map (dft_bin x) [0..<length x div 2 + 1]"

definition hermitian_bin :: "real list list \<Rightarrow> nat \<Rightarrow> nat \<Rightarrow> real \<times> real" where
  "hermitian_bin X L k =
     (if k < length X then (X ! k ! 0, X ! k ! 1) else (X ! (L - k) ! 0, - (X ! (L - k) ! 1)))"

definition irfft_signal :: "real list list \<Rightarrow> real list" where
  "irfft_signal X =
     (let L = 2 * (length X - 1)
      in map (\<lambda>n. sum_list (map (\<lambda>k.
                  fst (hermitian_bin X L k) * cos (2 * pi * real k * real n / real L)
                  - snd (hermitian_bin X L k) * sin (2 * pi * real k * real n / real L))
                [0..<L]) / real L)
           [0..<L])"

definition torch_rfft :: "t3 tensor \<Rightarrow> error + t4 tensor" where
  "torch_rfft x =
     (if shape x ! 2 = 0 then Inl TransformError
      else Inr \<lparr>shape = [shape x ! 0, shape x ! 1, shape x ! 2 div 2 + 1, 2],
                entries = map (map rfft_signal) (entries x)\<rparr>)"

definition torch_irfft :: "t4 tensor \<Rightarrow> error + t3 tensor" where
  "torch_irfft x =
     (if shape x ! 3 = 2 \<and> 1 < shape x ! 2
      then Inr \<lparr>shape = [shape x ! 0, shape x ! 1, 2 * (shape x ! 2 - 1)],
                entries = map (map irfft_signal) (entries x)\<rparr>
      else Inl TransformError)"

text \<open>
  The primitives of \<^verbatim>\<open>convolve1d\<close> with these two transforms; the padding and the direct
  convolution stay parameters.
\<close>

definition fft_prims ::
  "(t3 tensor \<Rightarrow> int \<times> int \<Rightarrow> string \<Rightarrow> error + t3 tensor) \<Rightarrow>
   (t3 tensor \<Rightarrow> t3 tensor \<Rightarrow> int \<Rightarrow> int \<Rightarrow> int \<Rightarrow> error + t3 tensor) \<Rightarrow> conv_prims" where
  "fft_prims pad_fn conv_fn =
     \<lparr>pad_prim = pad_fn, rfft = torch_rfft, irfft = torch_irfft, conv1d = conv_fn\<rparr>"

text \<open>
  The circular convolution of a signal \<open>x\<close> of size \<open>N\<close> with a kernel \<open>h\<close> of the same size:
  \<open>y[n] = \<Sum>m<N. x[m] h[(n - m) mod N]\<close>.
\<close>

definition circular_convolution :: "real list \<Rightarrow> real list \<Rightarrow> real list" where
  "circular_convolution x h =
     map (\<lambda>n. sum_list (map (\<lambda>m. x ! m * h ! ((n + length x - m) mod length x)) [0..<length x]))
       [0..<length x]"

text \<open>
  The transform at the frequency \<open>k\<close> as a complex number, and the complex multiply of
  \<^verbatim>\<open>convolve1d\<close> on the transforms of one signal and one kernel.
\<close>

definition dft :: "real list \<Rightarrow> nat \<Rightarrow> complex" where
  "dft x k =
     (\<Sum>n<length x. of_real (x ! n) * cis (- (2 * pi * real k * real n / real (length x))))"

definition spectral_product :: "real list list \<Rightarrow> real list list \<Rightarrow> real list list" where
  "spectral_product X H =
     map2 (\<lambda>s k. [s ! 0 * k ! 0 - s ! 1 * k ! 1, s ! 0 * k ! 1 + s ! 1 * k ! 0]) X H"

text \<open>A signal with one channel as an array of shape \<open>(1, N, 1)\<close>.\<close>

definition signal3 :: "real list \<Rightarrow> t3 tensor" where
  "signal3 xs = \<lparr>shape = [1, length xs, 1], entries = [map (\<lambda>v. [v]) xs]\<rparr>"

section \<open>What the codecs do for one batch item and frequency bin\<close>

definition zero_mat :: "nat \<Rightarrow> nat \<Rightarrow> mat" where
  "zero_mat r c = replicate r (replicate c 0)"

definition g_bin :: "real list list list \<Rightarrow> mat" where
  "g_bin w =
     (let n = length w;
          re = map (map (\<lambda>v. v ! 0)) w;
          im = map (map (\<lambda>v. v ! 1)) w;
          ev = strided 0 (2 * n);
          od = strided 1 (2 * n)
      in slice_set od ev
           (slice_set ev od
              (slice_set od od (slice_set ev ev (zero_mat (2 * n) (2 * n)) re) re)
              (map (map (\<lambda>x. -1 * x)) im))
           im)"

definition ginv_bin :: "mat \<Rightarrow> real list list list" where
  "ginv_bin m =
     (let n = length m div 2;
          ev = strided 0 (2 * n);
          od = strided 1 (2 * n)
      in map2 (map2 (\<lambda>a y. a[1 := y]))
           (map2 (map2 (\<lambda>a y. a[0 := y])) (replicate n (replicate n [0, 0])) (slice_get ev ev m))
           (slice_get od ev m))"

text \<open>
  What \<^verbatim>\<open>f\<close> builds for one batch item and frequency bin from the packed real parts
  \<open>re\<close> and imaginary parts \<open>im\<close>, with \<open>n\<close> channels.
\<close>

definition f_bin :: "nat \<Rightarrow> real list \<Rightarrow> real list \<Rightarrow> mat" where
  "f_bin n re im =
     (let ps = triu_pairs n n;
          i0 = map fst ps;
          i1 = map snd ps;
          ev = map (\<lambda>i. i * 2);
          od = map (\<lambda>i. i * 2 + 1);
          nim = map (\<lambda>x. -1 * x) im
      in scatter (ev i1) (od i0)
           (scatter (od i0) (ev i1)
              (scatter (od i1) (ev i0)
                 (scatter (ev i0) (od i1)
                    (scatter (od i0) (od i1)
                       (scatter (od i1) (od i0)
                          (scatter (ev i0) (ev i1)
                             (scatter (ev i1) (ev i0) (zero_mat (2 * n) (2 * n)) re) re) re) re)
                    nim) nim) im) im)"

text \<open>The real identity matrix \<^verbatim>\<open>torch.eye(n)\<close>.\<close>

definition eye :: "nat \<Rightarrow> mat" where
  "eye n = map (\<lambda>r. map (\<lambda>c. if r = c then 1 else 0) [0..<n]) [0..<n]"

section \<open>Lists updated by index\<close>

lemma fold_modify_length:
  "length (fold (\<lambda>(k, v) xs. xs[k := F (xs ! k) v]) kvs xs) = length xs"
  by (induction kvs arbitrary: xs) (auto split: prod.splits)

lemma fold_modify_notin:
  "k \<notin> fst ` set kvs \<Longrightarrow> fold (\<lambda>(k, v) xs. xs[k := F (xs ! k) v]) kvs xs ! k = xs ! k"
  by (induction kvs arbitrary: xs) (auto split: prod.splits)

lemma fold_modify_in:
  "distinct (map fst kvs) \<Longrightarrow> (k, v) \<in> set kvs \<Longrightarrow> k < length xs \<Longrightarrow>
   fold (\<lambda>(k, v) xs. xs[k := F (xs ! k) v]) kvs xs ! k = F (xs ! k) v"
proof (induction kvs arbitrary: xs)
  case Nil
  then show ?case by simp
next
  case (Cons a kvs)
  obtain k' v' where a: "a = (k', v')" by (cases a)
  show ?case
  proof (cases "k = k'")
    case True
    with Cons.prems a have notin: "k \<notin> fst ` set kvs" by auto
    with Cons.prems a True have "v = v'" by (auto simp: image_iff)
    with True a notin Cons.prems(3) show ?thesis
      by (simp add: fold_modify_notin)
  next
    case False
    with Cons.prems a have "(k, v) \<in> set kvs" "distinct (map fst kvs)" by auto
    with Cons.IH [of "xs[k' := F (xs ! k') v']"] False a Cons.prems(3) show ?thesis
      by simp
  qed
qed

lemma fst_set_zip: "k \<notin> set ks \<Longrightarrow> k \<notin> fst ` set (zip ks vs)"
  by (auto dest: set_zip_leftD)

lemma set_row_length: "length (set_row cs row vrow) = length row"
  by (simp add: set_row_def fold_modify_length [where F = "\<lambda>_ v. v"])

lemma set_row_notin: "c \<notin> set cs \<Longrightarrow> set_row cs row vrow ! c = row ! c"
  by (simp add: set_row_def fold_modify_notin [where F = "\<lambda>_ v. v"] fst_set_zip)

lemma set_row_in:
  assumes "distinct cs" "j < length cs" "length vrow = length cs" "cs ! j < length row"
  shows "set_row cs row vrow ! (cs ! j) = vrow ! j"
proof -
  have "(cs ! j, vrow ! j) \<in> set (zip cs vrow)"
    using assms by (auto simp: set_zip)
  moreover have "distinct (map fst (zip cs vrow))"
    using assms by (simp add: map_fst_zip)
  ultimately show ?thesis
    using assms(4)
    by (simp add: set_row_def fold_modify_in [where F = "\<lambda>_ v. v"])
qed

lemma slice_set_length: "length (slice_set rs cs m v) = length m"
  by (simp add: slice_set_def fold_modify_length [where F = "\<lambda>row vrow. set_row cs row vrow"])

lemma slice_set_row_notin: "r \<notin> set rs \<Longrightarrow> slice_set rs cs m v ! r = m ! r"
  by (simp add: slice_set_def fst_set_zip
      fold_modify_notin [where F = "\<lambda>row vrow. set_row cs row vrow"])

lemma slice_set_row_in:
  assumes "distinct rs" "i < length rs" "length v = length rs" "rs ! i < length m"
  shows "slice_set rs cs m v ! (rs ! i) = set_row cs (m ! (rs ! i)) (v ! i)"
proof -
  have "(rs ! i, v ! i) \<in> set (zip rs v)"
    using assms by (auto simp: set_zip)
  moreover have "distinct (map fst (zip rs v))"
    using assms by (simp add: map_fst_zip)
  ultimately show ?thesis
    using assms(4)
    by (simp add: slice_set_def fold_modify_in [where F = "\<lambda>row vrow. set_row cs row vrow"])
qed

lemma fold_modify_rows:
  "(\<And>x v. length (F x v) = length x) \<Longrightarrow>
   map length (fold (\<lambda>(k, v) xs. xs[k := F (xs ! k) v]) kvs xs) = map length xs"
proof (induction kvs arbitrary: xs)
  case Nil
  then show ?case by simp
next
  case (Cons a kvs)
  obtain k v where a: "a = (k, v)" by (cases a)
  have "map length (xs[k := F (xs ! k) v]) = map length xs"
    using Cons.prems by (cases "k < length xs") (simp_all add: map_update list_update_same_conv list_update_beyond)
  with Cons a show ?case by simp
qed

lemma slice_set_rows: "map length (slice_set rs cs m v) = map length m"
  by (simp add: slice_set_def set_row_length
      fold_modify_rows [where F = "\<lambda>row vrow. set_row cs row vrow"])

lemma slice_set_nth_in:
  assumes "distinct rs" "distinct cs" "i < length rs" "j < length cs"
    and "length v = length rs" "length (v ! i) = length cs"
    and "rs ! i < length m" "cs ! j < length (m ! (rs ! i))"
  shows "slice_set rs cs m v ! (rs ! i) ! (cs ! j) = v ! i ! j"
  using assms by (simp add: slice_set_row_in set_row_in)

lemma slice_set_nth_out:
  assumes "r \<notin> set rs \<or> c \<notin> set cs" "distinct rs" "length v = length rs" "r < length m"
  shows "slice_set rs cs m v ! r ! c = m ! r ! c"
proof (cases "r \<in> set rs")
  case False
  then show ?thesis by (simp add: slice_set_row_notin)
next
  case True
  then obtain i where i: "i < length rs" "rs ! i = r" by (auto simp: in_set_conv_nth)
  with True assms have "c \<notin> set cs" by simp
  with i assms slice_set_row_in [of rs i v m cs] show ?thesis
    by (simp add: set_row_notin)
qed

lemma nth_same_lengths:
  "map length xs = map length ys \<Longrightarrow> r < length ys \<Longrightarrow> length (xs ! r) = length (ys ! r)"
  by (metis length_map nth_map)

lemma slice_set_row_length [simp]:
  "r < length m \<Longrightarrow> length (slice_set rs cs m v ! r) = length (m ! r)"
  by (rule nth_same_lengths [OF slice_set_rows])

declare slice_set_length [simp]

lemma slice_get_set_same:
  assumes "distinct rs" "distinct cs" "length v = length rs"
    and "\<forall>row\<in>set v. length row = length cs"
    and "\<forall>r\<in>set rs. r < length m \<and> (\<forall>c\<in>set cs. c < length (m ! r))"
  shows "slice_get rs cs (slice_set rs cs m v) = v"
proof (rule nth_equalityI)
  show "length (slice_get rs cs (slice_set rs cs m v)) = length v"
    using assms by (simp add: slice_get_def)
next
  fix i assume "i < length (slice_get rs cs (slice_set rs cs m v))"
  then have i: "i < length rs" by (simp add: slice_get_def)
  then have len: "length (v ! i) = length cs" using assms by simp
  have ri: "rs ! i < length m" using assms i by simp
  show "slice_get rs cs (slice_set rs cs m v) ! i = v ! i"
  proof (rule nth_equalityI)
    show "length (slice_get rs cs (slice_set rs cs m v) ! i) = length (v ! i)"
      using i len by (simp add: slice_get_def)
  next
    fix j assume "j < length (slice_get rs cs (slice_set rs cs m v) ! i)"
    then have j: "j < length cs" using i by (simp add: slice_get_def)
    then have "cs ! j < length (m ! (rs ! i))" using assms i by simp
    then show "slice_get rs cs (slice_set rs cs m v) ! i ! j = v ! i ! j"
      using assms i j len ri by (simp add: slice_get_def slice_set_nth_in)
  qed
qed

lemma slice_get_set_other:
  assumes "set rs' \<inter> set rs = {} \<or> set cs' \<inter> set cs = {}"
    and "distinct rs" "length v = length rs" "\<forall>r\<in>set rs'. r < length m"
  shows "slice_get rs' cs' (slice_set rs cs m v) = slice_get rs' cs' m"
  unfolding slice_get_def
proof (intro map_cong refl)
  fix r c assume "r \<in> set rs'" "c \<in> set cs'"
  with assms have "r \<notin> set rs \<or> c \<notin> set cs" "r < length m" by auto
  with assms show "slice_set rs cs m v ! r ! c = m ! r ! c"
    by (simp add: slice_set_nth_out)
qed

lemma length_strided [simp]: "length (strided s e) = (e - s + 1) div 2"
  by (simp add: strided_def)

lemma nth_strided [simp]: "i < (e - s + 1) div 2 \<Longrightarrow> strided s e ! i = s + 2 * i"
  by (simp add: strided_def)

lemma distinct_strided [simp]: "distinct (strided s e)"
  by (simp add: strided_def distinct_map inj_on_def)

lemma set_strided: "set (strided s e) = {r. s \<le> r \<and> r < e \<and> even (r - s)}"
proof -
  have "r \<in> set (strided s e) \<longleftrightarrow> s \<le> r \<and> r < e \<and> even (r - s)" for r
  proof
    assume "r \<in> set (strided s e)"
    then obtain k where "k < (e - s + 1) div 2" "r = s + 2 * k"
      by (auto simp: strided_def)
    then show "s \<le> r \<and> r < e \<and> even (r - s)" by auto
  next
    assume a: "s \<le> r \<and> r < e \<and> even (r - s)"
    then have "even (r - s)" by blast
    then obtain k where k: "r - s = 2 * k" by (rule evenE)
    with a have "k < (e - s + 1) div 2" "r = s + 2 * k" by auto
    then show "r \<in> set (strided s e)" by (auto simp: strided_def)
  qed
  then show ?thesis by auto
qed

lemma strided_disjoint: "set (strided 0 e) \<inter> set (strided (Suc 0) e) = {}"
  by (auto simp: set_strided)

lemma strided_disjoint': "set (strided (Suc 0) e) \<inter> set (strided 0 e) = {}"
  by (auto simp: set_strided)

lemma strided_bound: "r \<in> set (strided s e) \<Longrightarrow> r < e"
  by (simp add: set_strided)

declare length_strided [simp del] nth_strided [simp del]

lemma sized_map: "sized n P (map u xs) = sized n (\<lambda>x. P (u x)) xs"
  by (simp add: sized_def list_all_iff)

lemma sizedD: "sized n P xs \<Longrightarrow> length xs = n" "sized n P xs \<Longrightarrow> x \<in> set xs \<Longrightarrow> P x"
  by (auto simp: sized_def list_all_iff)

lemma sized_mono: "sized n P xs \<Longrightarrow> (\<And>x. P x \<Longrightarrow> Q x) \<Longrightarrow> sized n Q xs"
  by (auto simp: sized_def list_all_iff)

lemma stretch_id: "length xs = n \<Longrightarrow> stretch n xs = xs"
  by (simp add: stretch_def)

lemma stretch4_id:
  "sized a (sized b (sized c (sized d P))) x \<Longrightarrow> stretch4 a b c d x = x"
  unfolding stretch4_def
  by (auto simp: sized_def list_all_iff stretch_id intro!: map_idI)

lemma stretch3_id:
  "sized a (sized b (sized c P)) x \<Longrightarrow> stretch3 a b c x = x"
  unfolding stretch3_def
  by (auto simp: sized_def list_all_iff stretch_id intro!: map_idI)

lemma broadcastable_refl [simp]: "broadcastable s s"
  by (simp add: broadcastable_def list_all2_same)

lemma replicate_lift:
  "sized a (sized b P) X \<Longrightarrow> replicate a (replicate b z) = map (map (\<lambda>_. z)) X"
proof -
  assume X: "sized a (sized b P) X"
  have "map (map (\<lambda>_. z)) X = map (\<lambda>_. replicate b z) X"
    using X by (intro map_cong refl) (auto simp: sized_def list_all_iff map_replicate_const)
  also have "\<dots> = replicate a (replicate b z)"
    using X by (simp add: sized_def map_replicate_const)
  finally show ?thesis by simp
qed

lemma map2_same: "map2 F (map u xs) (map h xs) = map (\<lambda>x. F (u x) (h x)) xs"
  by (simp add: zip_map_map zip_same_conv_map)

lemma map2_lift:
  "map2 (map2 F) (map (map u) X) (map (map h) X) = map (map (\<lambda>x. F (u x) (h x))) X"
  by (simp add: zip_map_map zip_same_conv_map)

lemma tensor_upd_eq:
  "shape t = s \<Longrightarrow> t\<lparr>entries := e\<rparr> = \<lparr>shape = s, entries = e\<rparr>"
  by (cases t) simp

lemma slice_put_lift:
  assumes X: "sized B (sized K Q) X"
    and wsh: "shape wsh = [B, K, R, S]" "entries wsh = map (map u) X"
    and rs: "rs = slice_indices r0 stop R" and cs: "cs = slice_indices c0 stop S"
    and v: "shape v = [B, K, length rs, length cs]" "entries v = map (map h) X"
    and h: "\<And>x. Q x \<Longrightarrow> sized (length rs) (sized (length cs) scalar) (h x)"
  shows "slice_put r0 c0 stop wsh v =
    Inr \<lparr>shape = [B, K, R, S], entries = map (map (\<lambda>x. slice_set rs cs (u x) (h x))) X\<rparr>"
proof -
  have "sized B (sized K (sized (length rs) (sized (length cs) scalar))) (map (map h) X)"
    using X h by (auto simp: sized_def list_all_iff)
  then have "stretch4 B K (length rs) (length cs) (entries v) = map (map h) X"
    using v by (simp add: stretch4_id)
  then show ?thesis
    using wsh v rs cs by (simp add: slice_put_def Let_def map2_lift tensor_upd_eq)
qed

lemma put_last_lift:
  assumes X: "sized B (sized K Q) X"
    and ws: "shape ws = [B, K, C, D, E]" "entries ws = map (map u) X" and k: "k < E"
    and v: "shape v = [B, K, C, D]" "entries v = map (map h) X"
    and h: "\<And>x. Q x \<Longrightarrow> sized C (sized D scalar) (h x)"
  shows "put_last k ws v =
    Inr \<lparr>shape = [B, K, C, D, E],
         entries = map (map (\<lambda>x. map2 (map2 (\<lambda>a y. a[k := y])) (u x) (h x))) X\<rparr>"
proof -
  have "sized B (sized K (sized C (sized D scalar))) (map (map h) X)"
    using X h by (auto simp: sized_def list_all_iff)
  then have "stretch4 B K C D (entries v) = map (map h) X"
    using v by (simp add: stretch4_id)
  then show ?thesis
    using ws v k by (simp add: put_last_def Let_def map2_lift tensor_upd_eq)
qed

lemma g_step:
  assumes X: "sized B (sized K Q) X"
    and r0: "r0 \<le> 1" and c0: "c0 \<le> 1"
    and h: "\<And>x. Q x \<Longrightarrow> sized C (sized C scalar) (h x)"
  shows "slice_put r0 c0 (2 * C)
           \<lparr>shape = [B, K, 2 * C, 2 * C], entries = map (map u) X\<rparr>
           \<lparr>shape = [B, K, C, C], entries = map (map h) X\<rparr> =
         Inr \<lparr>shape = [B, K, 2 * C, 2 * C],
              entries = map (map (\<lambda>x. slice_set (strided r0 (2 * C)) (strided c0 (2 * C)) (u x) (h x))) X\<rparr>"
proof -
  have n: "length (strided r0 (2 * C)) = C" "length (strided c0 (2 * C)) = C"
    using r0 c0 by (auto simp: length_strided)
  show ?thesis
    by (rule slice_put_lift [OF X]) (simp_all add: slice_indices_def n h)
qed

lemma g_lift:
  assumes w: "has_shape5 w B K C C 2"
  shows "g w = Inr \<lparr>shape = [B, K, 2 * C, 2 * C], entries = map (map g_bin) (entries w)\<rparr>"
proof -
  let ?Q = "sized C (sized C (sized 2 scalar))"
  let ?X = "entries w"
  let ?ev = "strided 0 (2 * C)" and ?od = "strided (Suc 0) (2 * C)"
  have sh: "shape w = [B, K, C, C, 2]" and X: "sized B (sized K ?Q) ?X"
    using w by (auto simp: has_shape5_def)
  define fre :: "real list list list \<Rightarrow> mat" where "fre = map (map (\<lambda>v. v ! 0))"
  define fim :: "real list list list \<Rightarrow> mat" where "fim = map (map (\<lambda>v. v ! 1))"
  define fneg :: "real list list list \<Rightarrow> mat" where "fneg = (\<lambda>x. map (map (\<lambda>x. -1 * x)) (fim x))"
  define re where "re = \<lparr>shape = [B, K, C, C], entries = map (map fre) ?X\<rparr>"
  define im where "im = \<lparr>shape = [B, K, C, C], entries = map (map fim) ?X\<rparr>"
  define f0 :: "real list list list \<Rightarrow> mat" where "f0 = (\<lambda>_. zero_mat (2 * C) (2 * C))"
  define f1 where "f1 = (\<lambda>x. slice_set ?ev ?ev (f0 x) (fre x))"
  define f2 where "f2 = (\<lambda>x. slice_set ?od ?od (f1 x) (fre x))"
  define f3 where "f3 = (\<lambda>x. slice_set ?ev ?od (f2 x) (fneg x))"
  define f4 where "f4 = (\<lambda>x. slice_set ?od ?ev (f3 x) (fim x))"
  define T :: "(real list list list \<Rightarrow> mat) \<Rightarrow> t4 tensor" where "T = (\<lambda>u. \<lparr>shape = [B, K, 2 * C, 2 * C], entries = map (map u) ?X\<rparr>)"
  have part: "sized C (sized C scalar) (fre x)" "sized C (sized C scalar) (fim x)"
    "sized C (sized C scalar) (fneg x)" if "?Q x" for x
    using that by (auto simp: sized_def list_all_iff scalar_def fre_def fim_def fneg_def)
  have z: "zeros4 B K (2 * C) (2 * C) = T f0"
    using X by (simp add: zeros4_def zero_mat_def replicate_lift T_def f0_def)
  have sel0: "select_last 0 w = Inr re"
    using sh by (simp add: select_last_def re_def fre_def)
  have sel1: "select_last (Suc 0) w = Inr im"
    using sh by (simp add: select_last_def im_def fim_def)
  have neg: "neg4 im = \<lparr>shape = [B, K, C, C], entries = map (map fneg) ?X\<rparr>"
    by (simp add: neg4_def im_def fneg_def)
  have s1: "slice_put 0 0 (2 * C) (T f0) re = Inr (T f1)"
    unfolding T_def re_def f1_def by (rule g_step [OF X]) (simp_all add: part)
  have s2: "slice_put (Suc 0) (Suc 0) (2 * C) (T f1) re = Inr (T f2)"
    unfolding T_def re_def f2_def by (rule g_step [OF X]) (simp_all add: part)
  have s3: "slice_put 0 (Suc 0) (2 * C) (T f2) (neg4 im) = Inr (T f3)"
    unfolding T_def neg f3_def by (rule g_step [OF X]) (simp_all add: part)
  have s4: "slice_put (Suc 0) 0 (2 * C) (T f3) im = Inr (T f4)"
    unfolding T_def im_def f4_def by (rule g_step [OF X]) (simp_all add: part)
  have "map (map g_bin) ?X = map (map f4) ?X"
    using X
    by (intro map_cong refl)
      (auto simp: g_bin_def Let_def sized_def list_all_iff f4_def f3_def f2_def f1_def f0_def
        fre_def fim_def fneg_def)
  moreover have "g w = Inr (T f4)"
    unfolding g_def Let_def sh nth_Cons_0 nth_Cons_Suc One_nat_def [symmetric]
    by (simp add: sel0 sel1 bind_def z s1 s2 s3 s4)
  ultimately show ?thesis by (simp add: T_def)
qed

lemma ginv_lift:
  assumes m: "has_shape4 m B K (2 * C) (2 * C)"
  shows "ginv m = Inr \<lparr>shape = [B, K, C, C, 2], entries = map (map ginv_bin) (entries m)\<rparr>"
proof -
  let ?Q = "sized (2 * C) (sized (2 * C) scalar)"
  let ?X = "entries m"
  let ?ev = "strided 0 (2 * C)" and ?od = "strided (Suc 0) (2 * C)"
  have sh: "shape m = [B, K, 2 * C, 2 * C]" and X: "sized B (sized K ?Q) ?X"
    using m by (auto simp: has_shape4_def)
  have n: "length ?ev = C" "length ?od = C"
    by (auto simp: length_strided)
  define f0 :: "mat \<Rightarrow> real list list list" where "f0 = (\<lambda>_. replicate C (replicate C [0, 0]))"
  define f1 where "f1 = (\<lambda>x. map2 (map2 (\<lambda>a y. a[0 := y])) (f0 x) (slice_get ?ev ?ev x))"
  define f2 where "f2 = (\<lambda>x. map2 (map2 (\<lambda>a y. a[Suc 0 := y])) (f1 x) (slice_get ?od ?ev x))"
  define T :: "(mat \<Rightarrow> real list list list) \<Rightarrow> t5 tensor"
    where "T = (\<lambda>u. \<lparr>shape = [B, K, C, C, 2], entries = map (map u) ?X\<rparr>)"
  have z: "zeros5 B K C C 2 = T f0"
    using X by (simp add: zeros5_def replicate_lift T_def f0_def numeral_2_eq_2)
  have part: "sized C (sized C scalar) (slice_get rs ?ev x)" if "length rs = C" for x rs
    using that n by (auto simp: sized_def list_all_iff scalar_def slice_get_def)
  have t1: "slice_take 0 0 (2 * C) m =
      \<lparr>shape = [B, K, C, C], entries = map (map (slice_get ?ev ?ev)) ?X\<rparr>"
    using sh n by (simp add: slice_take_def slice_indices_def Let_def)
  have t2: "slice_take (Suc 0) 0 (2 * C) m =
      \<lparr>shape = [B, K, C, C], entries = map (map (slice_get ?od ?ev)) ?X\<rparr>"
    using sh n by (simp add: slice_take_def slice_indices_def Let_def)
  have s1: "put_last 0 (T f0) (slice_take 0 0 (2 * C) m) = Inr (T f1)"
    unfolding T_def t1 f1_def by (rule put_last_lift [OF X]) (simp_all add: part n)
  have s2: "put_last (Suc 0) (T f1) (slice_take (Suc 0) 0 (2 * C) m) = Inr (T f2)"
    unfolding T_def t2 f2_def by (rule put_last_lift [OF X]) (simp_all add: part n)
  have "map (map ginv_bin) ?X = map (map f2) ?X"
    using X
    by (intro map_cong refl)
      (auto simp: ginv_bin_def Let_def sized_def list_all_iff f2_def f1_def f0_def)
  moreover have "ginv m = Inr (T f2)"
    unfolding ginv_def Let_def sh nth_Cons_0 nth_Cons_Suc One_nat_def [symmetric]
    by (simp add: bind_def z s1 s2)
  ultimately show ?thesis by (simp add: T_def)
qed

lemma zero_mat_dims [simp]:
  "length (zero_mat r c) = r" "i < r \<Longrightarrow> length (zero_mat r c ! i) = c"
  by (simp_all add: zero_mat_def)

lemma g_bin_dims:
  "length (g_bin w) = 2 * length w"
  "i < 2 * length w \<Longrightarrow> length (g_bin w ! i) = 2 * length w"
  by (simp_all add: g_bin_def Let_def)

lemma g_bin_slices:
  assumes w: "sized C (sized C (sized 2 scalar)) w"
  shows "slice_get (strided 0 (2 * C)) (strided 0 (2 * C)) (g_bin w) = map (map (\<lambda>v. v ! 0)) w"
    and "slice_get (strided (Suc 0) (2 * C)) (strided 0 (2 * C)) (g_bin w) = map (map (\<lambda>v. v ! 1)) w"
proof -
  let ?ev = "strided 0 (2 * C)" and ?od = "strided (Suc 0) (2 * C)"
  let ?re = "map (map (\<lambda>v. v ! 0)) w" and ?im = "map (map (\<lambda>v. v ! 1)) w"
  let ?nim = "map (map (\<lambda>x. -1 * x)) ?im"
  let ?z = "zero_mat (2 * C) (2 * C)"
  have len: "length w = C" and rows: "\<forall>r\<in>set w. length r = C"
    using w by (auto simp: sized_def list_all_iff)
  have n: "length ?ev = C" "length ?od = C"
    by (auto simp: length_strided)
  have bnd: "\<forall>r\<in>set (strided s (2 * C)). r < 2 * C" for s
    by (simp add: set_strided)
  define m1 where "m1 = slice_set ?ev ?ev ?z ?re"
  define m2 where "m2 = slice_set ?od ?od m1 ?re"
  define m3 where "m3 = slice_set ?ev ?od m2 ?nim"
  have gb: "g_bin w = slice_set ?od ?ev m3 ?im"
    using len by (simp add: g_bin_def Let_def m1_def m2_def m3_def)
  have d1: "length m1 = 2 * C" "\<forall>r<2 * C. length (m1 ! r) = 2 * C"
    by (simp_all add: m1_def)
  have d2: "length m2 = 2 * C" "\<forall>r<2 * C. length (m2 ! r) = 2 * C"
    using d1 by (simp_all add: m2_def)
  have d3: "length m3 = 2 * C" "\<forall>r<2 * C. length (m3 ! r) = 2 * C"
    using d2 by (simp_all add: m3_def)
  have "slice_get ?ev ?ev (g_bin w) = slice_get ?ev ?ev m3"
    unfolding gb using bnd d3 n len strided_disjoint [of "2 * C"]
    by (intro slice_get_set_other) auto
  also have "\<dots> = slice_get ?ev ?ev m2"
    unfolding m3_def using bnd d2 n len strided_disjoint [of "2 * C"]
    by (intro slice_get_set_other) auto
  also have "\<dots> = slice_get ?ev ?ev m1"
    unfolding m2_def using bnd d1 n len strided_disjoint [of "2 * C"]
    by (intro slice_get_set_other) auto
  also have "\<dots> = ?re"
    unfolding m1_def using bnd n len rows
    by (intro slice_get_set_same) auto
  finally show "slice_get ?ev ?ev (g_bin w) = ?re" .
  show "slice_get ?od ?ev (g_bin w) = ?im"
    unfolding gb using bnd d3 n len rows
    by (intro slice_get_set_same) auto
qed

lemma ginv_g_bin:
  assumes w: "sized C (sized C (sized 2 scalar)) w"
  shows "ginv_bin (g_bin w) = w"
proof -
  have len: "length w = C" and rows: "\<forall>r\<in>set w. length r = C \<and> (\<forall>v\<in>set r. length v = 2)"
    using w by (auto simp: sized_def list_all_iff)
  have pair: "[0, 0][0 := v ! 0, Suc 0 := v ! Suc 0] = v" if "length v = 2" for v :: "real list"
    using that by (cases v; cases "tl v"; auto)
  have "ginv_bin (g_bin w) =
      map2 (map2 (\<lambda>a y. a[Suc 0 := y]))
        (map2 (map2 (\<lambda>a y. a[0 := y])) (replicate C (replicate C [0, 0])) (map (map (\<lambda>v. v ! 0)) w))
        (map (map (\<lambda>v. v ! 1)) w)"
    using len by (simp add: ginv_bin_def Let_def g_bin_dims g_bin_slices [OF w])
  also have "\<dots> = w"
  proof (rule nth_equalityI)
    show "length (map2 (map2 (\<lambda>a y. a[Suc 0 := y]))
        (map2 (map2 (\<lambda>a y. a[0 := y])) (replicate C (replicate C [0, 0])) (map (map (\<lambda>v. v ! 0)) w))
        (map (map (\<lambda>v. v ! 1)) w)) = length w"
      using len by simp
  next
    fix i assume "i < length (map2 (map2 (\<lambda>a y. a[Suc 0 := y]))
        (map2 (map2 (\<lambda>a y. a[0 := y])) (replicate C (replicate C [0, 0])) (map (map (\<lambda>v. v ! 0)) w))
        (map (map (\<lambda>v. v ! 1)) w))"
    then have i: "i < C" using len by simp
    then have wi: "w ! i \<in> set w" using len by simp
    then have li: "length (w ! i) = C" using rows by simp
    have "map2 (\<lambda>a y. a[Suc 0 := y])
        (map2 (\<lambda>a y. a[0 := y]) (replicate C [0, 0]) (map (\<lambda>v. v ! 0) (w ! i)))
        (map (\<lambda>v. v ! 1) (w ! i)) = w ! i"
    proof (rule nth_equalityI)
      show "length (map2 (\<lambda>a y. a[Suc 0 := y])
        (map2 (\<lambda>a y. a[0 := y]) (replicate C [0, 0]) (map (\<lambda>v. v ! 0) (w ! i)))
        (map (\<lambda>v. v ! 1) (w ! i))) = length (w ! i)"
        using li by simp
    next
      fix j assume "j < length (map2 (\<lambda>a y. a[Suc 0 := y])
        (map2 (\<lambda>a y. a[0 := y]) (replicate C [0, 0]) (map (\<lambda>v. v ! 0) (w ! i)))
        (map (\<lambda>v. v ! 1) (w ! i)))"
      then have j: "j < C" using li by simp
      then have "w ! i ! j \<in> set (w ! i)" using li by simp
      then have "length (w ! i ! j) = 2" using rows wi by blast
      then show "map2 (\<lambda>a y. a[Suc 0 := y])
        (map2 (\<lambda>a y. a[0 := y]) (replicate C [0, 0]) (map (\<lambda>v. v ! 0) (w ! i)))
        (map (\<lambda>v. v ! 1) (w ! i)) ! j = w ! i ! j"
        using j li pair [of "w ! i ! j"] by simp
    qed
    then show "map2 (map2 (\<lambda>a y. a[Suc 0 := y]))
        (map2 (map2 (\<lambda>a y. a[0 := y])) (replicate C (replicate C [0, 0])) (map (map (\<lambda>v. v ! 0)) w))
        (map (map (\<lambda>v. v ! 1)) w) ! i = w ! i"
      using i len by simp
  qed
  finally show ?thesis .
qed

section \<open>The round trip through the block form\<close>

lemma g_bin_sized:
  "sized C P w \<Longrightarrow> sized (2 * C) (sized (2 * C) scalar) (g_bin w)"
  by (auto simp: sized_def list_all_length g_bin_dims scalar_def)

lemma map_map_idI: "(\<And>x. Q x \<Longrightarrow> h x = x) \<Longrightarrow> sized a (sized b Q) X \<Longrightarrow> map (map h) X = X"
  by (auto simp: sized_def list_all_iff intro!: map_idI)

lemma tensor_eqI: "shape t = s \<Longrightarrow> entries t = e \<Longrightarrow> \<lparr>shape = s, entries = e\<rparr> = t"
  by (cases t) simp

text \<open>
  C1.  For every complex matrix batch \<open>w\<close> of shape \<open>[B, K, C, C, 2]\<close>, encoding with
  \<open>g\<close> succeeds and decoding the block form with \<open>ginv\<close> returns \<open>w\<close> itself: the same
  shape and every real and imaginary entry unchanged.
\<close>

theorem ginv_g_roundtrip:
  assumes w: "has_shape5 w B K C C 2"
  shows "\<exists>wsh. g w = Inr wsh \<and> has_shape4 wsh B K (2 * C) (2 * C) \<and> ginv wsh = Inr w"
proof -
  let ?Q = "sized C (sized C (sized 2 scalar))"
  let ?wsh = "\<lparr>shape = [B, K, 2 * C, 2 * C], entries = map (map g_bin) (entries w)\<rparr>"
  have sh: "shape w = [B, K, C, C, 2]" and X: "sized B (sized K ?Q) (entries w)"
    using w by (auto simp: has_shape5_def)
  have enc: "g w = Inr ?wsh" by (rule g_lift [OF w])
  have wf: "has_shape4 ?wsh B K (2 * C) (2 * C)"
    using X by (auto simp: has_shape4_def sized_map intro: g_bin_sized elim!: sized_mono)
  have "map (map ginv_bin) (map (map g_bin) (entries w)) = map (map (\<lambda>x. ginv_bin (g_bin x))) (entries w)"
    by simp
  also have "\<dots> = entries w"
    by (rule map_map_idI [OF _ X]) (rule ginv_g_bin)
  finally have "ginv ?wsh = Inr w"
    using sh by (simp add: ginv_lift [OF wf] tensor_eqI)
  with enc wf show ?thesis by blast
qed

theorem ginv_g_roundtrip_witness:
  "has_shape5 \<lparr>shape = [1, 1, 2, 2, 2], entries = [[[[[1, 2], [3, 4]], [[5, 6], [7, 8]]]]]\<rparr> 1 1 2 2 2 \<and>
   (\<exists>wsh. g \<lparr>shape = [1, 1, 2, 2, 2], entries = [[[[[1, 2], [3, 4]], [[5, 6], [7, 8]]]]]\<rparr> = Inr wsh \<and>
      has_shape4 wsh 1 1 (2 * 2) (2 * 2) \<and>
      ginv wsh = Inr \<lparr>shape = [1, 1, 2, 2, 2], entries = [[[[[1, 2], [3, 4]], [[5, 6], [7, 8]]]]]\<rparr>)"
proof -
  have h: "has_shape5 \<lparr>shape = [1, 1, 2, 2, 2], entries = [[[[[1, 2], [3, 4]], [[5, 6], [7, 8]]]]]\<rparr> 1 1 2 2 2"
    by (simp add: has_shape5_def sized_def scalar_def)
  from ginv_g_roundtrip [OF h] h show ?thesis by blast
qed

subsection \<open>The channel count\<close>

lemma sqrt_down_le: "sqrt_down n k * sqrt_down n k \<le> n"
  by (induction k) auto

lemma sqrt_down_max: "j \<le> k \<Longrightarrow> j * j \<le> n \<Longrightarrow> j \<le> sqrt_down n k"
proof (induction k)
  case 0
  then show ?case by simp
next
  case (Suc k)
  show ?case
  proof (cases "Suc k * Suc k \<le> n")
    case True
    with Suc.prems show ?thesis by simp
  next
    case False
    with Suc.prems have "j \<noteq> Suc k" by auto
    with Suc.prems have "j \<le> k" by simp
    with Suc False show ?thesis by simp
  qed
qed

lemma floor_sqrt_le: "floor_sqrt n * floor_sqrt n \<le> n"
  by (simp add: floor_sqrt_def sqrt_down_le)

lemma floor_sqrt_max: "j * j \<le> n \<Longrightarrow> j \<le> floor_sqrt n"
proof -
  assume a: "j * j \<le> n"
  have "j \<le> j * j" by (cases j) auto
  note le_trans [OF this a]
  then have "j \<le> n" .
  with a show ?thesis by (simp add: floor_sqrt_def sqrt_down_max)
qed

lemma floor_sqrt_gt: "n < Suc (floor_sqrt n) * Suc (floor_sqrt n)"
proof (rule ccontr)
  assume "\<not> n < Suc (floor_sqrt n) * Suc (floor_sqrt n)"
  then have "Suc (floor_sqrt n) * Suc (floor_sqrt n) \<le> n" by simp
  then have "Suc (floor_sqrt n) \<le> floor_sqrt n" by (rule floor_sqrt_max)
  then show False by simp
qed

lemma floor_sqrt_square: "floor_sqrt (m * m) = m"
proof (rule antisym)
  have le: "floor_sqrt (m * m) * floor_sqrt (m * m) \<le> m * m" by (rule floor_sqrt_le)
  show "floor_sqrt (m * m) \<le> m"
  proof (rule ccontr)
    assume "\<not> floor_sqrt (m * m) \<le> m"
    then have "Suc m \<le> floor_sqrt (m * m)" by simp
    then have "Suc m * Suc m \<le> floor_sqrt (m * m) * floor_sqrt (m * m)" by (intro mult_le_mono)
    with le show False by simp
  qed
  show "m \<le> floor_sqrt (m * m)" by (rule floor_sqrt_max) simp
qed

lemma n_channels_eq [code]: "n_channels_of p = floor_sqrt (1 + 8 * p) div 2"
proof -
  define n where "n = 1 + 8 * p"
  define s where "s = floor_sqrt n"
  define c where "c = s div 2"
  have lo: "s * s \<le> n" unfolding s_def by (rule floor_sqrt_le)
  have hi: "n < Suc s * Suc s" unfolding s_def by (rule floor_sqrt_gt)
  have "Suc s \<le> 2 * c + 2" unfolding c_def by arith
  then have "Suc s * Suc s \<le> (2 * c + 2) * (2 * c + 2)" by (intro mult_le_mono)
  with hi have hi': "n < (2 * c + 2) * (2 * c + 2)" by simp
  have "2 * c \<le> s" unfolding c_def by arith
  then have "(2 * c) * (2 * c) \<le> s * s" by (intro mult_le_mono)
  with lo have lo': "(2 * c) * (2 * c) \<le> n" by simp
  have "(real (2 * c))\<^sup>2 \<le> real n"
    using lo' by (metis of_nat_le_iff of_nat_mult power2_eq_square)
  then have r1: "real (2 * c) \<le> sqrt (real n)" by (rule real_le_rsqrt)
  have "real n < (real (2 * c + 2))\<^sup>2"
    using hi' by (metis of_nat_less_iff of_nat_mult power2_eq_square)
  then have r2: "sqrt (real n) < real (2 * c + 2)" by (intro real_less_lsqrt) simp_all
  have "round ((sqrt (real n) - 1) / 2) = int c"
    using r1 r2 by (intro round_unique) (simp_all add: field_simps)
  then show ?thesis
    by (simp add: n_channels_of_def n_def c_def s_def)
qed

lemma n_channels_triangular: "n_channels_of (C * (C + 1) div 2) = C"
proof -
  have "even (C * (C + 1))" by simp
  then obtain k where k: "C * (C + 1) = 2 * k" by (rule evenE)
  then have "1 + 8 * (C * (C + 1) div 2) = 1 + 4 * (C * (C + 1))" by simp
  also have "\<dots> = (2 * C + 1) * (2 * C + 1)" by (simp add: algebra_simps)
  finally have "1 + 8 * (C * (C + 1) div 2) = (2 * C + 1) * (2 * C + 1)" .
  then show ?thesis
    by (simp only: n_channels_eq floor_sqrt_square)
qed

subsection \<open>The upper-triangle index list\<close>

lemma set_triu_pairs: "set (triu_pairs r c) = {(i, j). i < r \<and> i \<le> j \<and> j < c}"
  by (auto simp: triu_pairs_def)

lemma triu_pairs_Suc: "triu_pairs (Suc r) c = triu_pairs r c @ map (Pair r) [r..<c]"
  by (simp add: triu_pairs_def)

lemma distinct_triu_pairs: "distinct (triu_pairs r c)"
proof (induction r)
  case 0
  show ?case by (simp add: triu_pairs_def)
next
  case (Suc r)
  have "distinct (map (Pair r) [r..<c])" by (simp add: distinct_map inj_on_def)
  moreover have "set (triu_pairs r c) \<inter> set (map (Pair r) [r..<c]) = {}"
    by (auto simp: set_triu_pairs)
  ultimately show ?case using Suc by (simp add: triu_pairs_Suc)
qed

lemma length_triu_pairs_le: "r \<le> c \<Longrightarrow> 2 * length (triu_pairs r c) + r * r = r * (2 * c + 1)"
proof (induction r)
  case 0
  show ?case by (simp add: triu_pairs_def)
next
  case (Suc r)
  then have "2 * length (triu_pairs r c) + r * r = r * (2 * c + 1)" by simp
  moreover have "length (triu_pairs (Suc r) c) = length (triu_pairs r c) + (c - r)"
    by (simp add: triu_pairs_Suc)
  ultimately show ?case using Suc.prems by (simp add: algebra_simps)
qed

lemma length_triu_pairs: "length (triu_pairs n n) = n * (n + 1) div 2"
proof -
  have "2 * length (triu_pairs n n) + n * n = n * (2 * n + 1)"
    by (rule length_triu_pairs_le) simp
  then have "2 * length (triu_pairs n n) = n * (n + 1)" by (simp add: algebra_simps)
  then show ?thesis by simp
qed

subsection \<open>Writing and reading by index lists\<close>

lemma fold_put_length:
  "length (fold (\<lambda>(r, c, x) m'. m'[r := (m' ! r)[c := x]]) ws m) = length m"
  by (induction ws arbitrary: m) (auto split: prod.splits)

lemma fold_put_rows:
  "map length (fold (\<lambda>(r, c, x) m'. m'[r := (m' ! r)[c := x]]) ws m) = map length m"
proof (induction ws arbitrary: m)
  case Nil
  show ?case by simp
next
  case (Cons a ws)
  obtain r c x where a: "a = (r, c, x)" by (cases a)
  have "map length (m[r := (m ! r)[c := x]]) = map length m"
    by (cases "r < length m") (simp_all add: map_update list_update_same_conv list_update_beyond)
  with Cons a show ?case by simp
qed

lemma fold_put_notin:
  "(r, c) \<notin> (\<lambda>(r, c, x). (r, c)) ` set ws \<Longrightarrow>
   fold (\<lambda>(r, c, x) m'. m'[r := (m' ! r)[c := x]]) ws m ! r ! c = m ! r ! c"
proof (induction ws arbitrary: m)
  case Nil
  show ?case by simp
next
  case (Cons a ws)
  obtain r' c' x' where a: "a = (r', c', x')" by (cases a)
  with Cons.prems have ne: "r' \<noteq> r \<or> c' \<noteq> c" and rest: "(r, c) \<notin> (\<lambda>(r, c, x). (r, c)) ` set ws"
    by auto
  have "m[r' := (m ! r')[c' := x']] ! r ! c = m ! r ! c"
    using ne by (cases "r' = r"; cases "r < length m") (auto simp: list_update_beyond)
  with Cons.IH [OF rest] a show ?case by simp
qed

lemma fold_put_in:
  "distinct (map (\<lambda>(r, c, x). (r, c)) ws) \<Longrightarrow> (r, c, x) \<in> set ws \<Longrightarrow>
   r < length m \<Longrightarrow> c < length (m ! r) \<Longrightarrow>
   fold (\<lambda>(r, c, x) m'. m'[r := (m' ! r)[c := x]]) ws m ! r ! c = x"
proof (induction ws arbitrary: m)
  case Nil
  then show ?case by simp
next
  case (Cons a ws)
  obtain r' c' x' where a: "a = (r', c', x')" by (cases a)
  show ?case
  proof (cases "(r', c') = (r, c)")
    case True
    with Cons.prems a have notin: "(r, c) \<notin> (\<lambda>(r, c, x). (r, c)) ` set ws" by auto
    with Cons.prems a True have "x = x'" by (auto simp: image_iff)
    with True a Cons.prems(3,4) show ?thesis
      by (simp add: fold_put_notin [OF notin])
  next
    case False
    with Cons.prems a have in_rest: "(r, c, x) \<in> set ws"
      and dist: "distinct (map (\<lambda>(r, c, x). (r, c)) ws)" by auto
    have len: "r < length (m[r' := (m ! r')[c' := x']])" using Cons.prems by simp
    have len2: "c < length (m[r' := (m ! r')[c' := x']] ! r)"
      using Cons.prems by (cases "r' = r") simp_all
    from Cons.IH [OF dist in_rest len len2] a show ?thesis by simp
  qed
qed

lemma scatter_length [simp]: "length (scatter rows cols m vals) = length m"
  by (simp add: scatter_def fold_put_length)

lemma scatter_row_length [simp]:
  "r < length m \<Longrightarrow> length (scatter rows cols m vals ! r) = length (m ! r)"
  unfolding scatter_def by (rule nth_same_lengths [OF fold_put_rows])

lemma scatter_out:
  assumes "\<forall>q\<in>set ps. ra (p1 q) \<noteq> r \<or> cb (p2 q) \<noteq> c"
  shows "scatter (map ra (map p1 ps)) (map cb (map p2 ps)) m vals ! r ! c = m ! r ! c"
proof -
  have "(r, c) \<notin> (\<lambda>(r, c, x). (r, c)) ` set (zip (map ra (map p1 ps)) (zip (map cb (map p2 ps)) vals))"
  proof
    assume "(r, c) \<in> (\<lambda>(r, c, x). (r, c)) ` set (zip (map ra (map p1 ps)) (zip (map cb (map p2 ps)) vals))"
    then obtain x where "(r, c, x) \<in> set (zip (map ra (map p1 ps)) (zip (map cb (map p2 ps)) vals))"
      by auto
    then obtain k where "k < length ps" "r = ra (p1 (ps ! k))" "c = cb (p2 (ps ! k))"
      by (auto simp: set_zip)
    with assms show False by (metis nth_mem)
  qed
  then show ?thesis unfolding scatter_def by (rule fold_put_notin)
qed

lemma scatter_in:
  assumes inj: "inj_on (\<lambda>q. (ra (p1 q), cb (p2 q))) (set ps)" and dist: "distinct ps"
    and len: "length vals = length ps" and k: "k < length ps"
    and r: "ra (p1 (ps ! k)) < length m" and c: "cb (p2 (ps ! k)) < length (m ! ra (p1 (ps ! k)))"
  shows "scatter (map ra (map p1 ps)) (map cb (map p2 ps)) m vals
           ! ra (p1 (ps ! k)) ! cb (p2 (ps ! k)) = vals ! k"
proof -
  let ?ws = "zip (map ra (map p1 ps)) (zip (map cb (map p2 ps)) vals)"
  have "map (\<lambda>(r, c, x). (r, c)) ?ws = map (\<lambda>q. (ra (p1 q), cb (p2 q))) ps"
    using len by (intro nth_equalityI) simp_all
  then have "distinct (map (\<lambda>(r, c, x). (r, c)) ?ws)"
    using inj dist by (simp add: distinct_map)
  moreover have "(ra (p1 (ps ! k)), cb (p2 (ps ! k)), vals ! k) \<in> set ?ws"
    using k len by (auto simp: set_zip intro!: exI [of _ k])
  ultimately show ?thesis
    unfolding scatter_def using r c by (rule fold_put_in)
qed

subsection \<open>The entries of the block matrix built from a packed matrix\<close>

lemma parity_ne [simp]:
  "a * 2 + 1 \<noteq> b * 2" "a * 2 \<noteq> b * 2 + 1"
  "Suc (a * 2) \<noteq> b * 2" "a * 2 \<noteq> Suc (b * 2)" for a b :: nat
  by presburger+

lemma f_bin_dims:
  "length (f_bin n re im) = 2 * n"
  "r < 2 * n \<Longrightarrow> length (f_bin n re im ! r) = 2 * n"
  by (simp_all add: f_bin_def Let_def)

lemma f_bin_entries:
  assumes re: "length re = length (triu_pairs n n)" and im: "length im = length (triu_pairs n n)"
    and k: "k < length (triu_pairs n n)" and ij: "triu_pairs n n ! k = (i, j)"
  shows "f_bin n re im ! (i * 2) ! (j * 2) = re ! k"
    and "f_bin n re im ! (j * 2) ! (i * 2) = re ! k"
    and "f_bin n re im ! (i * 2 + 1) ! (j * 2 + 1) = re ! k"
    and "f_bin n re im ! (j * 2 + 1) ! (i * 2 + 1) = re ! k"
    and "f_bin n re im ! (i * 2 + 1) ! (j * 2) = im ! k"
    and "f_bin n re im ! (j * 2) ! (i * 2 + 1) = im ! k"
    and "f_bin n re im ! (i * 2) ! (j * 2 + 1) = (if i = j then im ! k else -1 * im ! k)"
    and "f_bin n re im ! (j * 2 + 1) ! (i * 2) = (if i = j then im ! k else -1 * im ! k)"
proof -
  define ps where "ps = triu_pairs n n"
  define nim where "nim = map (\<lambda>x. -1 * x) im"
  define ev :: "nat \<Rightarrow> nat" where "ev = (\<lambda>i. i * 2)"
  define od :: "nat \<Rightarrow> nat" where "od = (\<lambda>i. i * 2 + 1)"
  define m0 where "m0 = zero_mat (2 * n) (2 * n)"
  define m1 where "m1 = scatter (map ev (map snd ps)) (map ev (map fst ps)) m0 re"
  define m2 where "m2 = scatter (map ev (map fst ps)) (map ev (map snd ps)) m1 re"
  define m3 where "m3 = scatter (map od (map snd ps)) (map od (map fst ps)) m2 re"
  define m4 where "m4 = scatter (map od (map fst ps)) (map od (map snd ps)) m3 re"
  define m5 where "m5 = scatter (map ev (map fst ps)) (map od (map snd ps)) m4 nim"
  define m6 where "m6 = scatter (map od (map snd ps)) (map ev (map fst ps)) m5 nim"
  define m7 where "m7 = scatter (map od (map fst ps)) (map ev (map snd ps)) m6 im"
  define m8 where "m8 = scatter (map ev (map snd ps)) (map od (map fst ps)) m7 im"
  note ms = m1_def m2_def m3_def m4_def m5_def m6_def m7_def m8_def
  have fb: "f_bin n re im = m8"
    unfolding f_bin_def Let_def ms m0_def ps_def nim_def ev_def od_def ..
  have tri: "\<forall>q\<in>set ps. fst q \<le> snd q \<and> snd q < n"
    by (auto simp: ps_def set_triu_pairs)
  have dist: "distinct ps" by (simp add: ps_def distinct_triu_pairs)
  have kk: "k < length ps" and pk: "ps ! k = (i, j)" using k ij by (simp_all add: ps_def)
  then have "(i, j) \<in> set ps" by (metis nth_mem)
  with tri have le: "i \<le> j" and jn: "j < n" by auto
  have lens: "length re = length ps" "length im = length ps" "length nim = length ps"
    using re im by (simp_all add: ps_def nim_def)
  have d0: "length m0 = 2 * n" "\<And>r. r < 2 * n \<Longrightarrow> length (m0 ! r) = 2 * n"
    by (simp_all add: m0_def)
  have d: "length m1 = 2 * n" "length m2 = 2 * n" "length m3 = 2 * n" "length m4 = 2 * n"
    "length m5 = 2 * n" "length m6 = 2 * n" "length m7 = 2 * n"
    by (simp_all add: ms d0)
  have dr: "length (m1 ! r) = 2 * n" "length (m2 ! r) = 2 * n" "length (m3 ! r) = 2 * n"
    "length (m4 ! r) = 2 * n" "length (m5 ! r) = 2 * n" "length (m6 ! r) = 2 * n"
    "length (m7 ! r) = 2 * n" "length (m0 ! r) = 2 * n" if "r < 2 * n" for r
    using that by (simp_all add: ms d0)
  have bnd: "ev i < 2 * n" "ev j < 2 * n" "od i < 2 * n" "od j < 2 * n"
    using le jn by (simp_all add: ev_def od_def)
  have inj: "inj_on (\<lambda>q. (a (p1 q), b (p2 q))) (set ps)"
    if "a = ev \<or> a = od" "b = ev \<or> b = od" "(p1 = fst \<and> p2 = snd) \<or> (p1 = snd \<and> p2 = fst)"
    for a b :: "nat \<Rightarrow> nat" and p1 p2 :: "nat \<times> nat \<Rightarrow> nat"
    using that by (auto simp: inj_on_def ev_def od_def prod_eq_iff)
  have swap: "\<forall>q\<in>set ps. a (snd q) \<noteq> a' i \<or> b (fst q) \<noteq> b' j"
    if "i \<noteq> j" "a = ev \<or> a = od" "b = ev \<or> b = od" "a' = ev \<or> a' = od" "b' = ev \<or> b' = od"
    for a b a' b' :: "nat \<Rightarrow> nat"
  proof
    fix q assume "q \<in> set ps"
    with tri have "fst q \<le> snd q" by simp
    with le that show "a (snd q) \<noteq> a' i \<or> b (fst q) \<noteq> b' j"
      by (auto simp: ev_def od_def)
  qed
  have par: "\<forall>q\<in>set ps. a (p1 q) \<noteq> a' x \<or> b (p2 q) \<noteq> b' y"
    if "(a = ev \<and> a' = od) \<or> (a = od \<and> a' = ev) \<or> (b = ev \<and> b' = od) \<or> (b = od \<and> b' = ev)"
    for a b a' b' :: "nat \<Rightarrow> nat" and p1 p2 :: "nat \<times> nat \<Rightarrow> nat" and x y
    using that by (auto simp: ev_def od_def)
  have o: "scatter (map a (map p1 ps)) (map b (map p2 ps)) m vals ! a' x ! b' y = m ! a' x ! b' y"
    if "(a = ev \<and> a' = od) \<or> (a = od \<and> a' = ev) \<or> (b = ev \<and> b' = od) \<or> (b = od \<and> b' = ev)"
    for a b a' b' :: "nat \<Rightarrow> nat" and p1 p2 :: "nat \<times> nat \<Rightarrow> nat" and x y m vals
    by (rule scatter_out) (rule par [OF that])
  have swap': "\<forall>q\<in>set ps. a (fst q) \<noteq> a' j \<or> b (snd q) \<noteq> b' i"
    if "i \<noteq> j" "a = ev \<or> a = od" "b = ev \<or> b = od" "a' = ev \<or> a' = od" "b' = ev \<or> b' = od"
    for a b a' b' :: "nat \<Rightarrow> nat"
  proof
    fix q assume "q \<in> set ps"
    with tri have "fst q \<le> snd q" by simp
    with le that show "a (fst q) \<noteq> a' j \<or> b (snd q) \<noteq> b' i"
      by (auto simp: ev_def od_def)
  qed
  have w: "scatter (map a (map p1 ps)) (map b (map p2 ps)) m vals ! a (p1 (i, j)) ! b (p2 (i, j)) = vals ! k"
    if "a = ev \<or> a = od" "b = ev \<or> b = od" "(p1 = fst \<and> p2 = snd) \<or> (p1 = snd \<and> p2 = fst)"
      "length vals = length ps" "length m = 2 * n" "\<And>r. r < 2 * n \<Longrightarrow> length (m ! r) = 2 * n"
    for a b :: "nat \<Rightarrow> nat" and p1 p2 :: "nat \<times> nat \<Rightarrow> nat" and m vals
  proof -
    have "a (p1 (ps ! k)) < 2 * n" "b (p2 (ps ! k)) < 2 * n"
      using that(1-3) bnd pk by auto
    then show ?thesis
      using scatter_in [of a p1 b p2 ps vals k m] inj [OF that(1-3)] dist that(4-6) kk pk
      by simp
  qed
  have nk: "nim ! k = -1 * im ! k" using kk lens by (simp add: nim_def)
  have t1: "m8 ! ev i ! ev j = re ! k"
  proof -
    have "m8 ! ev i ! ev j = m2 ! ev i ! ev j"
      by (simp add: m8_def m7_def m6_def m5_def m4_def m3_def o del: map_map)
    also have "\<dots> = re ! k"
      unfolding m2_def using w [of ev ev fst snd re m1] lens d dr by simp
    finally show ?thesis .
  qed
  have t2: "m8 ! ev j ! ev i = re ! k"
  proof -
    have e: "m8 ! ev j ! ev i = m2 ! ev j ! ev i"
      by (simp add: m8_def m7_def m6_def m5_def m4_def m3_def o del: map_map)
    show ?thesis
    proof (cases "i = j")
      case True
      with e t1 show ?thesis
        by (simp add: m8_def m7_def m6_def m5_def m4_def m3_def o del: map_map)
    next
      case False
      have "m2 ! ev j ! ev i = m1 ! ev j ! ev i"
        unfolding m2_def by (rule scatter_out) (rule swap' [OF False], simp_all)
      also have "\<dots> = re ! k"
        unfolding m1_def using w [of ev ev snd fst re m0] lens d0 by simp
      finally show ?thesis using e by simp
    qed
  qed
  have t3: "m8 ! od i ! od j = re ! k"
  proof -
    have "m8 ! od i ! od j = m4 ! od i ! od j"
      by (simp add: m8_def m7_def m6_def m5_def o del: map_map)
    also have "\<dots> = re ! k"
      unfolding m4_def using w [of od od fst snd re m3] lens d dr by simp
    finally show ?thesis .
  qed
  have t4: "m8 ! od j ! od i = re ! k"
  proof -
    have e: "m8 ! od j ! od i = m4 ! od j ! od i"
      by (simp add: m8_def m7_def m6_def m5_def o del: map_map)
    show ?thesis
    proof (cases "i = j")
      case True
      with t3 show ?thesis by simp
    next
      case False
      have "m4 ! od j ! od i = m3 ! od j ! od i"
        unfolding m4_def by (rule scatter_out) (rule swap' [OF False], simp_all)
      also have "\<dots> = re ! k"
        unfolding m3_def using w [of od od snd fst re m2] lens d dr by simp
      finally show ?thesis using e by simp
    qed
  qed
  have t5: "m8 ! od i ! ev j = im ! k"
  proof -
    have "m8 ! od i ! ev j = m7 ! od i ! ev j"
      by (simp add: m8_def o del: map_map)
    also have "\<dots> = im ! k"
      unfolding m7_def using w [of od ev fst snd im m6] lens d dr by simp
    finally show ?thesis .
  qed
  have t6: "m8 ! ev j ! od i = im ! k"
    unfolding m8_def using w [of ev od snd fst im m7] lens d dr by simp
  have t7: "m8 ! ev i ! od j = (if i = j then im ! k else -1 * im ! k)"
  proof (cases "i = j")
    case True
    with t6 show ?thesis by simp
  next
    case False
    have "m8 ! ev i ! od j = m7 ! ev i ! od j"
      unfolding m8_def by (rule scatter_out) (rule swap [OF False], simp_all)
    also have "\<dots> = m5 ! ev i ! od j"
      by (simp add: m7_def m6_def o del: map_map)
    also have "\<dots> = nim ! k"
      unfolding m5_def using w [of ev od fst snd nim m4] lens d dr by simp
    finally show ?thesis using False nk by simp
  qed
  have t8: "m8 ! od j ! ev i = (if i = j then im ! k else -1 * im ! k)"
  proof (cases "i = j")
    case True
    with t5 show ?thesis by simp
  next
    case False
    have "m8 ! od j ! ev i = m7 ! od j ! ev i"
      by (simp add: m8_def o del: map_map)
    also have "\<dots> = m6 ! od j ! ev i"
      unfolding m7_def by (rule scatter_out) (rule swap' [OF False], simp_all)
    also have "\<dots> = nim ! k"
      unfolding m6_def using w [of od ev snd fst nim m5] lens d dr by simp
    finally show ?thesis using False nk by simp
  qed
  show "f_bin n re im ! (i * 2) ! (j * 2) = re ! k"
    using t1 by (simp add: fb ev_def)
  show "f_bin n re im ! (j * 2) ! (i * 2) = re ! k"
    using t2 by (simp add: fb ev_def)
  show "f_bin n re im ! (i * 2 + 1) ! (j * 2 + 1) = re ! k"
    using t3 by (simp add: fb od_def)
  show "f_bin n re im ! (j * 2 + 1) ! (i * 2 + 1) = re ! k"
    using t4 by (simp add: fb od_def)
  show "f_bin n re im ! (i * 2 + 1) ! (j * 2) = im ! k"
    using t5 by (simp add: fb ev_def od_def)
  show "f_bin n re im ! (j * 2) ! (i * 2 + 1) = im ! k"
    using t6 by (simp add: fb ev_def od_def)
  show "f_bin n re im ! (i * 2) ! (j * 2 + 1) = (if i = j then im ! k else -1 * im ! k)"
    using t7 by (simp add: fb ev_def od_def)
  show "f_bin n re im ! (j * 2 + 1) ! (i * 2) = (if i = j then im ! k else -1 * im ! k)"
    using t8 by (simp add: fb ev_def od_def)
qed

subsection \<open>The packed codec on whole arrays\<close>

lemma index_put_lift:
  assumes X: "sized B (sized K Q) X"
    and wsh: "shape wsh = [B, K, R, S]" "entries wsh = map (map u) X"
    and bnd: "\<forall>r\<in>set rows. r < R" "\<forall>c\<in>set cols. c < S"
    and v: "shape v = [B, K, length rows]" "entries v = map (map h) X"
    and h: "\<And>x. Q x \<Longrightarrow> length (h x) = length rows"
  shows "index_put rows cols wsh v =
    Inr \<lparr>shape = [B, K, R, S], entries = map (map (\<lambda>x. scatter rows cols (u x) (h x))) X\<rparr>"
proof -
  have "sized B (sized K (sized (length rows) scalar)) (map (map h) X)"
    using X h by (auto simp: sized_def list_all_iff scalar_def)
  then have "stretch3 B K (length rows) (entries v) = map (map h) X"
    using v by (simp add: stretch3_id)
  moreover have "in_bounds rows cols wsh"
    using bnd wsh by (simp add: in_bounds_def list_all_iff)
  ultimately show ?thesis
    using wsh v by (simp add: index_put_def map2_lift tensor_upd_eq)
qed

lemma swap_axes_select:
  assumes "sized d (sized e scalar) x" "k < d"
  shows "map (\<lambda>v. v ! k) (swap_axes e x) = x ! k"
proof -
  have "x ! k \<in> set x" using assms by (simp add: sized_def)
  then have "length (x ! k) = e" using assms by (auto simp: sized_def list_all_iff)
  then have "map (\<lambda>j. x ! k ! j) [0..<e] = x ! k" by (metis map_nth)
  then show ?thesis using assms by (simp add: swap_axes_def comp_def sized_def)
qed

lemma squeezed_entries:
  assumes "sized B (sized 1 Q) E"
  shows "map hd (map (map u) E) = map u (map hd E)"
proof -
  have "hd (map u e) = u (hd e)" if "e \<in> set E" for e
  proof -
    from that assms have "length e = 1" by (auto simp: sized_def list_all_iff)
    then show ?thesis by (cases e) auto
  qed
  then show ?thesis by simp
qed

lemma squeezed_sized:
  assumes "sized B (sized 1 Q) E"
  shows "sized B Q (map hd E)"
proof -
  have "Q (hd e)" if "e \<in> set E" for e
  proof -
    from that assms have "length e = 1" "\<forall>x\<in>set e. Q x" by (auto simp: sized_def list_all_iff)
    then show ?thesis by (cases e) auto
  qed
  with assms show ?thesis by (auto simp: sized_def list_all_iff)
qed

lemma packed_view:
  assumes a: "has_shape5 a B 1 K 2 P" and k: "k < 2"
  shows "select_last4 k (drop_axis1 (transpose34 a)) =
    Inr \<lparr>shape = [B, K, P], entries = map (map (\<lambda>x. x ! k)) (map hd (entries a))\<rparr>"
proof -
  let ?Q = "sized 2 (sized P scalar)"
  have sh: "shape a = [B, 1, K, 2, P]" and E: "sized B (sized 1 (sized K ?Q)) (entries a)"
    using a by (auto simp: has_shape5_def)
  have X: "sized B (sized K ?Q) (map hd (entries a))"
    by (rule squeezed_sized [OF E])
  have "map hd (map (map (map (swap_axes P))) (entries a)) = map (map (swap_axes P)) (map hd (entries a))"
    by (rule squeezed_entries [OF E])
  then have "entries (drop_axis1 (transpose34 a)) = map (map (swap_axes P)) (map hd (entries a))"
    using sh by (simp add: drop_axis1_def transpose34_def)
  moreover have "shape (drop_axis1 (transpose34 a)) = [B, K, P, 2]"
    using sh by (simp add: drop_axis1_def transpose34_def)
  moreover have "map (map (map (\<lambda>v. v ! k))) (map (map (swap_axes P)) (map hd (entries a))) =
      map (map (\<lambda>x. x ! k)) (map hd (entries a))"
  proof -
    have "map (map (\<lambda>x. map (\<lambda>v. v ! k) (swap_axes P x))) (map hd (entries a)) =
        map (map (\<lambda>x. x ! k)) (map hd (entries a))"
      using X k by (intro map_cong refl swap_axes_select) (auto simp: sized_def list_all_iff)
    then show ?thesis by (simp add: comp_def)
  qed
  ultimately show ?thesis using k by (simp add: select_last4_def)
qed

lemma triu_index_bounds:
  "\<forall>r\<in>set (map (\<lambda>i. i * 2) (map fst (triu_pairs n n))). r < 2 * n"
  "\<forall>r\<in>set (map (\<lambda>i. i * 2) (map snd (triu_pairs n n))). r < 2 * n"
  "\<forall>r\<in>set (map (\<lambda>i. i * 2 + 1) (map fst (triu_pairs n n))). r < 2 * n"
  "\<forall>r\<in>set (map (\<lambda>i. i * 2 + 1) (map snd (triu_pairs n n))). r < 2 * n"
  by (auto simp: set_triu_pairs)

lemma f_lift:
  assumes a: "has_shape5 a B 1 K 2 P" and P: "P = C * (C + 1) div 2"
  shows "f a = Inr \<lparr>shape = [B, K, 2 * C, 2 * C],
                    entries = map (map (\<lambda>x. f_bin C (x ! 0) (x ! 1))) (map hd (entries a))\<rparr>"
proof -
  let ?P = "P"
  let ?Q = "sized 2 (sized ?P scalar)"
  let ?X = "map hd (entries a)"
  have nc: "n_channels_of P = C" unfolding P by (rule n_channels_triangular)
  define ps where "ps = triu_pairs C C"
  define ev where "ev = map (\<lambda>i::nat. i * 2)"
  define od where "od = map (\<lambda>i::nat. i * 2 + 1)"
  define i0 where "i0 = map fst ps"
  define i1 where "i1 = map snd ps"
  have sh: "shape a = [B, 1, K, 2, ?P]" and E: "sized B (sized 1 (sized K ?Q)) (entries a)"
    using a by (auto simp: has_shape5_def)
  have X: "sized B (sized K ?Q) ?X" by (rule squeezed_sized [OF E])
  have shs: "shape (drop_axis1 (transpose34 a)) = [B, K, ?P, 2]"
    using sh by (simp add: drop_axis1_def transpose34_def)
  have T: "length ps = ?P" by (simp add: ps_def length_triu_pairs P)
  have lens: "length (ev i0) = ?P" "length (ev i1) = ?P" "length (od i0) = ?P" "length (od i1) = ?P"
    by (simp_all add: ev_def od_def i0_def i1_def T)
  have bnd: "\<forall>r\<in>set (ev i0). r < 2 * C" "\<forall>r\<in>set (ev i1). r < 2 * C"
    "\<forall>r\<in>set (od i0). r < 2 * C" "\<forall>r\<in>set (od i1). r < 2 * C"
    unfolding ev_def od_def i0_def i1_def ps_def by (rule triu_index_bounds)+
  define fre :: "real list list \<Rightarrow> real list" where "fre = (\<lambda>x. x ! 0)"
  define fim :: "real list list \<Rightarrow> real list" where "fim = (\<lambda>x. x ! Suc 0)"
  define fneg :: "real list list \<Rightarrow> real list" where "fneg = (\<lambda>x. map (\<lambda>x. -1 * x) (fim x))"
  define re where "re = \<lparr>shape = [B, K, ?P], entries = map (map fre) ?X\<rparr>"
  define im where "im = \<lparr>shape = [B, K, ?P], entries = map (map fim) ?X\<rparr>"
  define nim where "nim = \<lparr>shape = [B, K, ?P], entries = map (map fneg) ?X\<rparr>"
  define f0 :: "real list list \<Rightarrow> mat" where "f0 = (\<lambda>_. zero_mat (2 * C) (2 * C))"
  define f1 where "f1 = (\<lambda>x. scatter (ev i1) (ev i0) (f0 x) (fre x))"
  define f2 where "f2 = (\<lambda>x. scatter (ev i0) (ev i1) (f1 x) (fre x))"
  define f3 where "f3 = (\<lambda>x. scatter (od i1) (od i0) (f2 x) (fre x))"
  define f4 where "f4 = (\<lambda>x. scatter (od i0) (od i1) (f3 x) (fre x))"
  define f5 where "f5 = (\<lambda>x. scatter (ev i0) (od i1) (f4 x) (fneg x))"
  define f6 where "f6 = (\<lambda>x. scatter (od i1) (ev i0) (f5 x) (fneg x))"
  define f7 where "f7 = (\<lambda>x. scatter (od i0) (ev i1) (f6 x) (fim x))"
  define f8 where "f8 = (\<lambda>x. scatter (ev i1) (od i0) (f7 x) (fim x))"
  define T :: "(real list list \<Rightarrow> mat) \<Rightarrow> t4 tensor"
    where "T = (\<lambda>u. \<lparr>shape = [B, K, 2 * C, 2 * C], entries = map (map u) ?X\<rparr>)"
  have part: "length (fre x) = ?P" "length (fim x) = ?P" "length (fneg x) = ?P" if "?Q x" for x
    using that by (auto simp: sized_def list_all_iff fre_def fim_def fneg_def numeral_2_eq_2)
  have z: "zeros4 B K (2 * C) (2 * C) = T f0"
    using X by (simp add: zeros4_def zero_mat_def replicate_lift T_def f0_def)
  have sel0: "select_last4 0 (drop_axis1 (transpose34 a)) = Inr re"
    using packed_view [OF a, of 0] by (simp add: re_def fre_def)
  have sel1: "select_last4 (Suc 0) (drop_axis1 (transpose34 a)) = Inr im"
    using packed_view [OF a, of "Suc 0"] by (simp add: im_def fim_def)
  have neg: "neg3 im = nim"
    by (simp add: neg3_def im_def nim_def fneg_def)
  have step: "index_put rows cols (T u) \<lparr>shape = [B, K, ?P], entries = map (map h) ?X\<rparr> =
      Inr (T (\<lambda>x. scatter rows cols (u x) (h x)))"
    if "length rows = ?P" "\<forall>r\<in>set rows. r < 2 * C" "\<forall>c\<in>set cols. c < 2 * C"
      "\<And>x. ?Q x \<Longrightarrow> length (h x) = ?P" for rows cols u h
    unfolding T_def using that by (intro index_put_lift [OF X]) simp_all
  have s1: "index_put (ev i1) (ev i0) (T f0) re = Inr (T f1)"
    unfolding re_def f1_def by (rule step) (simp_all add: lens bnd part)
  have s2: "index_put (ev i0) (ev i1) (T f1) re = Inr (T f2)"
    unfolding re_def f2_def by (rule step) (simp_all add: lens bnd part)
  have s3: "index_put (od i1) (od i0) (T f2) re = Inr (T f3)"
    unfolding re_def f3_def by (rule step) (simp_all add: lens bnd part)
  have s4: "index_put (od i0) (od i1) (T f3) re = Inr (T f4)"
    unfolding re_def f4_def by (rule step) (simp_all add: lens bnd part)
  have s5: "index_put (ev i0) (od i1) (T f4) nim = Inr (T f5)"
    unfolding nim_def f5_def by (rule step) (simp_all add: lens bnd part)
  have s6: "index_put (od i1) (ev i0) (T f5) nim = Inr (T f6)"
    unfolding nim_def f6_def by (rule step) (simp_all add: lens bnd part)
  have s7: "index_put (od i0) (ev i1) (T f6) im = Inr (T f7)"
    unfolding im_def f7_def by (rule step) (simp_all add: lens bnd part)
  have s8: "index_put (ev i1) (od i0) (T f7) im = Inr (T f8)"
    unfolding im_def f8_def by (rule step) (simp_all add: lens bnd part)
  have fb: "f8 = (\<lambda>x. f_bin C (x ! 0) (x ! 1))"
    unfolding f8_def f7_def f6_def f5_def f4_def f3_def f2_def f1_def f0_def f_bin_def Let_def
      fre_def fim_def fneg_def ev_def od_def i0_def i1_def ps_def
    by simp
  have p: "shape (drop_axis1 (transpose34 a)) ! 0 = B" "shape (drop_axis1 (transpose34 a)) ! 1 = K"
    "shape (drop_axis1 (transpose34 a)) ! 2 = P"
    by (simp_all add: shs)
  have sq: "squeeze1 (transpose34 a) = Some (drop_axis1 (transpose34 a))"
    using sh by (simp add: squeeze1_def transpose34_def)
  have "f a = Inr (T f8)"
    unfolding f_def sq option.case Let_def p nc triu_indices_def fst_conv snd_conv
    unfolding ps_def [symmetric] i0_def [symmetric] i1_def [symmetric] ev_def [symmetric]
      od_def [symmetric]
    by (simp add: sel0 sel1 bind_def z s1 s2 s3 s4 s5 s6 s7 s8 neg)
  then show ?thesis by (simp add: T_def fb)
qed

subsection \<open>Symmetry of the block matrix\<close>

lemma f_bin_symmetric:
  assumes re: "length re = length (triu_pairs n n)" and im: "length im = length (triu_pairs n n)"
    and r: "r < 2 * n" and c: "c < 2 * n"
  shows "f_bin n re im ! r ! c = f_bin n re im ! c ! r"
proof -
  have sym: "f_bin n re im ! r ! c = f_bin n re im ! c ! r"
    if le: "r div 2 \<le> c div 2" and r: "r < 2 * n" and c: "c < 2 * n" for r c
  proof -
    define i where "i = r div 2"
    define j where "j = c div 2"
    have "(i, j) \<in> set (triu_pairs n n)"
      using le r c by (auto simp: set_triu_pairs i_def j_def)
    then obtain k where k: "k < length (triu_pairs n n)" "triu_pairs n n ! k = (i, j)"
      by (auto simp: in_set_conv_nth)
    note e = f_bin_entries [OF re im k]
    have "r = i * 2 \<or> r = i * 2 + 1" "c = j * 2 \<or> c = j * 2 + 1"
      unfolding i_def j_def by presburger+
    then show ?thesis
      using e by (elim disjE) simp_all
  qed
  show ?thesis
  proof (cases "r div 2 \<le> c div 2")
    case True
    then show ?thesis using r c by (rule sym)
  next
    case False
    then have "c div 2 \<le> r div 2" by simp
    then have "f_bin n re im ! c ! r = f_bin n re im ! r ! c" using c r by (rule sym)
    then show ?thesis by simp
  qed
qed

lemma swap_axes_symmetric:
  assumes "length m = n" "\<forall>r<n. length (m ! r) = n" "\<forall>r<n. \<forall>c<n. m ! r ! c = m ! c ! r"
  shows "swap_axes n m = m"
proof (rule nth_equalityI)
  show "length (swap_axes n m) = length m" using assms by (simp add: swap_axes_def)
next
  fix r assume "r < length (swap_axes n m)"
  then have r: "r < n" by (simp add: swap_axes_def)
  show "swap_axes n m ! r = m ! r"
  proof (rule nth_equalityI)
    show "length (swap_axes n m ! r) = length (m ! r)"
      using assms r by (simp add: swap_axes_def)
  next
    fix c assume "c < length (swap_axes n m ! r)"
    then have "c < n" using assms r by (simp add: swap_axes_def)
    then show "swap_axes n m ! r ! c = m ! r ! c"
      using assms r by (simp add: swap_axes_def)
  qed
qed

lemma f_bin_sized: "sized (2 * n) (sized (2 * n) scalar) (f_bin n re im)"
  by (auto simp: sized_def list_all_length f_bin_dims scalar_def)

lemma packed_item:
  assumes "sized 2 (sized P scalar) x"
  shows "length (x ! 0) = P" "length (x ! 1) = P" "x = [x ! 0, x ! 1]"
proof -
  from assms obtain u v where x: "x = [u, v]"
    by (cases x; cases "tl x") (auto simp: sized_def)
  with assms show "length (x ! 0) = P" "length (x ! 1) = P" "x = [x ! 0, x ! 1]"
    by (auto simp: sized_def)
qed

text \<open>
  C4.  For every packed input \<open>a\<close> of shape \<open>[B, 1, K, 2, P]\<close> with \<open>P = C (C + 1) / 2\<close>
  whose diagonal entries have zero imaginary part, \<open>f a\<close> is a block matrix of shape
  \<open>[B, K, 2C, 2C]\<close> equal to its own transpose in the last two axes.
\<close>

theorem f_symmetric:
  assumes a: "has_shape5 a B 1 K 2 P" and P: "P = C * (C + 1) div 2"
    and h: "hermitian_consistent a"
  shows "\<exists>m. f a = Inr m \<and> has_shape4 m B K (2 * C) (2 * C) \<and> transpose23 m = m"
proof -
  let ?Q = "sized 2 (sized P scalar)"
  let ?X = "map hd (entries a)"
  let ?fb = "\<lambda>x. f_bin C (x ! 0) (x ! 1)"
  let ?m = "\<lparr>shape = [B, K, 2 * C, 2 * C], entries = map (map ?fb) ?X\<rparr>"
  have E: "sized B (sized 1 (sized K ?Q)) (entries a)"
    using a by (auto simp: has_shape5_def)
  have X: "sized B (sized K ?Q) ?X" by (rule squeezed_sized [OF E])
  have enc: "f a = Inr ?m" by (rule f_lift [OF a P])
  have wf: "has_shape4 ?m B K (2 * C) (2 * C)"
    using X by (auto simp: has_shape4_def sized_map f_bin_sized elim!: sized_mono)
  have T: "length (triu_pairs C C) = P" by (simp add: length_triu_pairs P)
  have "swap_axes (2 * C) (?fb x) = ?fb x" if "?Q x" for x
  proof (rule swap_axes_symmetric)
    show "length (?fb x) = 2 * C" by (simp add: f_bin_dims)
    show "\<forall>r<2 * C. length (?fb x ! r) = 2 * C" by (simp add: f_bin_dims)
    show "\<forall>r<2 * C. \<forall>c<2 * C. ?fb x ! r ! c = ?fb x ! c ! r"
      using packed_item [OF that] T by (auto intro!: f_bin_symmetric)
  qed
  then have "map (map (\<lambda>x. swap_axes (2 * C) (?fb x))) ?X = map (map ?fb) ?X"
    using X by (intro map_cong refl) (auto simp: sized_def list_all_iff)
  then have "transpose23 ?m = ?m"
    by (simp add: transpose23_def comp_def)
  with enc wf show ?thesis by blast
qed

subsection \<open>Decoding the packed form\<close>

lemma put_component_lift:
  assumes Y: "sized B (sized K Q) Y"
    and ws: "shape ws = [B, 1, K, 2, P]" "entries ws = map (\<lambda>yb. [map u yb]) Y" and c: "c < 2"
    and v: "shape v = [B, K, P]" "entries v = map (map h) Y"
    and h: "\<And>y. Q y \<Longrightarrow> length (h y) = P"
  shows "put_component c ws v =
    Inr \<lparr>shape = [B, 1, K, 2, P], entries = map (\<lambda>yb. [map (\<lambda>y. (u y)[c := h y]) yb]) Y\<rparr>"
proof -
  have "sized B (sized K (sized P scalar)) (map (map h) Y)"
    using Y h by (auto simp: sized_def list_all_iff scalar_def)
  then have "stretch3 B K P (entries v) = map (map h) Y"
    using v by (simp add: stretch3_id)
  moreover have "map2 (\<lambda>x vb. x[0 := map2 (\<lambda>y vk. y[c := vk]) (x ! 0) vb])
      (map (\<lambda>yb. [map u yb]) Y) (map (map h) Y) = map (\<lambda>yb. [map (\<lambda>y. (u y)[c := h y]) yb]) Y"
    by (simp add: zip_map_map zip_same_conv_map)
  ultimately show ?thesis
    using ws v c by (simp add: put_component_def tensor_upd_eq)
qed

lemma replicate_lift1:
  assumes X: "sized a (sized b P) X"
  shows "replicate a [replicate b z] = map (\<lambda>x. [map (\<lambda>_. z) x]) X"
proof -
  have "map (\<lambda>x. [map (\<lambda>_. z) x]) X = map (\<lambda>_. [replicate b z]) X"
    using X by (intro map_cong refl) (auto simp: sized_def list_all_iff map_replicate_const)
  also have "\<dots> = replicate a [replicate b z]"
    using X by (simp add: sized_def map_replicate_const)
  finally show ?thesis by simp
qed

lemma finv_lift:
  assumes m: "has_shape4 m B K (2 * C) (2 * C)"
  shows "finv m = Inr \<lparr>shape = [B, 1, K, 2, C * (C + 1) div 2],
      entries = map (\<lambda>yb. [map (\<lambda>y.
        [gather (map (\<lambda>i. i * 2) (map fst (triu_pairs C C))) (map (\<lambda>i. i * 2) (map snd (triu_pairs C C))) y,
         map (\<lambda>x. -1 * x)
           (gather (map (\<lambda>i. i * 2) (map fst (triu_pairs C C))) (map (\<lambda>i. i * 2 + 1) (map snd (triu_pairs C C))) y)])
        yb]) (entries m)\<rparr>"
proof -
  define P where "P = C * (C + 1) div 2"
  let ?Q = "sized (2 * C) (sized (2 * C) scalar)"
  let ?Y = "entries m"
  define ps where "ps = triu_pairs C C"
  define ev where "ev = map (\<lambda>i::nat. i * 2)"
  define od where "od = map (\<lambda>i::nat. i * 2 + 1)"
  define i0 where "i0 = map fst ps"
  define i1 where "i1 = map snd ps"
  have sh: "shape m = [B, K, 2 * C, 2 * C]" and Y: "sized B (sized K ?Q) ?Y"
    using m by (auto simp: has_shape4_def)
  have T: "length ps = P" by (simp add: ps_def length_triu_pairs P_def)
  have lens: "length (ev i0) = P" "length (ev i1) = P" "length (od i0) = P" "length (od i1) = P"
    by (simp_all add: ev_def od_def i0_def i1_def T)
  have bnd: "\<forall>r\<in>set (ev i0). r < 2 * C" "\<forall>r\<in>set (ev i1). r < 2 * C"
    "\<forall>r\<in>set (od i0). r < 2 * C" "\<forall>r\<in>set (od i1). r < 2 * C"
    unfolding ev_def od_def i0_def i1_def ps_def by (rule triu_index_bounds)+
  have inb: "in_bounds (ev i0) (ev i1) m" "in_bounds (ev i0) (od i1) m"
    using bnd sh by (simp_all add: in_bounds_def list_all_iff)
  define gre where "gre = gather (ev i0) (ev i1)"
  define gim where "gim = gather (ev i0) (od i1)"
  define gneg where "gneg = (\<lambda>y. map (\<lambda>x. -1 * x) (gim y))"
  define re where "re = \<lparr>shape = [B, K, P], entries = map (map gre) ?Y\<rparr>"
  define im where "im = \<lparr>shape = [B, K, P], entries = map (map gim) ?Y\<rparr>"
  define nim where "nim = \<lparr>shape = [B, K, P], entries = map (map gneg) ?Y\<rparr>"
  define u0 :: "mat \<Rightarrow> real list list" where "u0 = (\<lambda>_. replicate 2 (replicate P 0))"
  define u1 where "u1 = (\<lambda>y. (u0 y)[0 := gre y])"
  define u2 where "u2 = (\<lambda>y. (u1 y)[Suc 0 := gneg y])"
  define T :: "(mat \<Rightarrow> real list list) \<Rightarrow> t5 tensor"
    where "T = (\<lambda>u. \<lparr>shape = [B, 1, K, 2, P], entries = map (\<lambda>yb. [map u yb]) ?Y\<rparr>)"
  have part: "length (gre y) = P" "length (gneg y) = P" for y
    by (simp_all add: gre_def gneg_def gim_def gather_def lens)
  have "replicate B [replicate K z] = map (\<lambda>yb. [map (\<lambda>_. z) yb]) ?Y" for z :: "real list list"
    by (rule replicate_lift1 [OF Y])
  then have z: "zeros5 B (Suc 0) K 2 P = T u0"
    by (simp add: zeros5_def T_def u0_def)
  have g0: "index_get (ev i0) (ev i1) m = Inr re"
    using inb sh by (simp add: index_get_def re_def gre_def lens)
  have g1: "index_get (ev i0) (od i1) m = Inr im"
    using inb sh by (simp add: index_get_def im_def gim_def lens)
  have neg: "neg3 im = nim"
    by (simp add: neg3_def im_def nim_def gneg_def)
  have s1: "put_component 0 (T u0) re = Inr (T u1)"
    unfolding T_def re_def u1_def by (rule put_component_lift [OF Y]) (simp_all add: part)
  have s2: "put_component (Suc 0) (T u1) nim = Inr (T u2)"
    unfolding T_def nim_def u2_def by (rule put_component_lift [OF Y]) (simp_all add: part)
  have u2: "u2 = (\<lambda>y. [gre y, gneg y])"
    by (simp add: u2_def u1_def u0_def numeral_2_eq_2)
  have p: "shape m ! 0 = B" "shape m ! 1 = K" "shape m ! 2 div 2 = C"
    by (simp_all add: sh)
  have "finv m = Inr (T u2)"
    unfolding finv_def Let_def p triu_indices_def fst_conv snd_conv
    unfolding P_def [symmetric] ps_def [symmetric] i0_def [symmetric] i1_def [symmetric] ev_def [symmetric]
      od_def [symmetric]
    by (simp add: g0 g1 bind_def z s1 s2 neg)
  then show ?thesis
    by (simp add: T_def u2 gre_def gneg_def gim_def ev_def od_def i0_def i1_def ps_def P_def)
qed

lemma gather_nth:
  "k < length ps \<Longrightarrow>
   gather (map ra (map p1 ps)) (map cb (map p2 ps)) m ! k = m ! ra (p1 (ps ! k)) ! cb (p2 (ps ! k))"
  by (simp add: gather_def)

lemma length_gather: "length (gather (map ra (map p1 ps)) (map cb (map p2 ps)) m) = length ps"
  by (simp add: gather_def)

lemma diag_imag_zeroD:
  assumes "diag_imag_zero n im" "length im = length (triu_pairs n n)"
    and "k < length (triu_pairs n n)" "triu_pairs n n ! k = (i, i)"
  shows "im ! k = 0"
proof -
  have "((i, i), im ! k) \<in> set (zip (triu_pairs n n) im)"
    using assms by (auto simp: set_zip intro!: exI [of _ k])
  with assms(1) show ?thesis
    by (auto simp: diag_imag_zero_def list_all_iff)
qed

lemma finv_f_bin:
  assumes re: "length re = length (triu_pairs n n)" and im: "length im = length (triu_pairs n n)"
    and dz: "diag_imag_zero n im"
  shows "gather (map (\<lambda>i. i * 2) (map fst (triu_pairs n n))) (map (\<lambda>i. i * 2) (map snd (triu_pairs n n)))
           (f_bin n re im) = re"
    and "map (\<lambda>x. -1 * x)
           (gather (map (\<lambda>i. i * 2) (map fst (triu_pairs n n)))
              (map (\<lambda>i. i * 2 + 1) (map snd (triu_pairs n n))) (f_bin n re im)) = im"
proof -
  let ?ps = "triu_pairs n n"
  show "gather (map (\<lambda>i. i * 2) (map fst ?ps)) (map (\<lambda>i. i * 2) (map snd ?ps)) (f_bin n re im) = re"
  proof (rule nth_equalityI)
    show "length (gather (map (\<lambda>i. i * 2) (map fst ?ps)) (map (\<lambda>i. i * 2) (map snd ?ps))
        (f_bin n re im)) = length re"
      using re by (simp add: gather_def)
  next
    fix k assume "k < length (gather (map (\<lambda>i. i * 2) (map fst ?ps)) (map (\<lambda>i. i * 2) (map snd ?ps))
        (f_bin n re im))"
    then have k: "k < length ?ps" by (simp add: gather_def)
    obtain i j where ij: "?ps ! k = (i, j)" by (cases "?ps ! k")
    show "gather (map (\<lambda>i. i * 2) (map fst ?ps)) (map (\<lambda>i. i * 2) (map snd ?ps)) (f_bin n re im) ! k
        = re ! k"
      using f_bin_entries(1) [OF re im k ij] ij k by (simp add: gather_def)
  qed
  show "map (\<lambda>x. -1 * x) (gather (map (\<lambda>i. i * 2) (map fst ?ps)) (map (\<lambda>i. i * 2 + 1) (map snd ?ps))
      (f_bin n re im)) = im"
  proof (rule nth_equalityI)
    show "length (map (\<lambda>x. -1 * x) (gather (map (\<lambda>i. i * 2) (map fst ?ps))
        (map (\<lambda>i. i * 2 + 1) (map snd ?ps)) (f_bin n re im))) = length im"
      using im by (simp add: gather_def)
  next
    fix k assume "k < length (map (\<lambda>x. -1 * x) (gather (map (\<lambda>i. i * 2) (map fst ?ps))
        (map (\<lambda>i. i * 2 + 1) (map snd ?ps)) (f_bin n re im)))"
    then have k: "k < length ?ps" by (simp add: gather_def)
    obtain i j where ij: "?ps ! k = (i, j)" by (cases "?ps ! k")
    have "i = j \<Longrightarrow> im ! k = 0"
      using diag_imag_zeroD [OF dz im k] ij by simp
    then have "-1 * (if i = j then im ! k else -1 * im ! k) = im ! k" by auto
    then show "map (\<lambda>x. -1 * x) (gather (map (\<lambda>i. i * 2) (map fst ?ps))
        (map (\<lambda>i. i * 2 + 1) (map snd ?ps)) (f_bin n re im)) ! k = im ! k"
      using f_bin_entries(7) [OF re im k ij] ij k by (simp add: gather_def)
  qed
qed

text \<open>
  C3.  For every packed input \<open>a\<close> of shape \<open>[B, 1, K, 2, P]\<close> with \<open>P = C (C + 1) / 2\<close>
  whose diagonal entries have zero imaginary part, \<open>f a\<close> succeeds and \<open>finv\<close> returns
  \<open>a\<close> from it: \<open>finv\<close> is a left inverse of \<open>f\<close> on Hermitian-consistent inputs.
\<close>

theorem finv_f_roundtrip:
  assumes a: "has_shape5 a B 1 K 2 P" and P: "P = C * (C + 1) div 2"
    and h: "hermitian_consistent a"
  shows "\<exists>m. f a = Inr m \<and> finv m = Inr a"
proof -
  let ?Q = "sized 2 (sized P scalar)"
  let ?X = "map hd (entries a)"
  let ?ps = "triu_pairs C C"
  let ?fb = "\<lambda>x. f_bin C (x ! 0) (x ! 1)"
  let ?m = "\<lparr>shape = [B, K, 2 * C, 2 * C], entries = map (map ?fb) ?X\<rparr>"
  let ?G = "\<lambda>y. [gather (map (\<lambda>i. i * 2) (map fst ?ps)) (map (\<lambda>i. i * 2) (map snd ?ps)) y,
         map (\<lambda>x. -1 * x)
           (gather (map (\<lambda>i. i * 2) (map fst ?ps)) (map (\<lambda>i. i * 2 + 1) (map snd ?ps)) y)]"
  have sh: "shape a = [B, 1, K, 2, P]" and E: "sized B (sized 1 (sized K ?Q)) (entries a)"
    using a by (auto simp: has_shape5_def)
  have X: "sized B (sized K ?Q) ?X" by (rule squeezed_sized [OF E])
  have enc: "f a = Inr ?m" by (rule f_lift [OF a P])
  have wf: "has_shape4 ?m B K (2 * C) (2 * C)"
    using X by (auto simp: has_shape4_def sized_map f_bin_sized elim!: sized_mono)
  have T: "length ?ps = P" by (simp add: length_triu_pairs P)
  have nc: "n_channels_of P = C" unfolding P by (rule n_channels_triangular)
  have item: "[map (\<lambda>x. ?G (?fb x)) (hd e)] = e" if e: "e \<in> set (entries a)" for e
  proof -
    from e E have se: "sized 1 (sized K ?Q) e" by (auto simp: sized_def list_all_iff)
    then obtain xb where xb: "e = [xb]" by (cases e) (auto simp: sized_def)
    with se have xs: "\<forall>x\<in>set xb. ?Q x" by (auto simp: sized_def list_all_iff)
    have "?G (?fb x) = x" if x: "x \<in> set xb" for x
    proof -
      from xs x have Q: "?Q x" by simp
      have dz: "diag_imag_zero C (x ! 1)"
        using h e x xb sh nc by (auto simp: hermitian_consistent_def list_all_iff)
      note pi = packed_item [OF Q]
      have "?G (?fb x) = [x ! 0, x ! 1]"
        using finv_f_bin [of "x ! 0" C "x ! 1"] pi(1,2) T dz by simp
      with pi(3) show ?thesis by simp
    qed
    then have "map (\<lambda>x. ?G (?fb x)) xb = xb" by (intro map_idI)
    with xb show ?thesis by simp
  qed
  have "map (\<lambda>yb. [map ?G yb]) (map (map ?fb) ?X) = map (\<lambda>e. [map (\<lambda>x. ?G (?fb x)) (hd e)]) (entries a)"
    by (simp add: comp_def)
  also have "\<dots> = entries a"
    using item by (intro map_idI)
  finally have ent: "map (\<lambda>yb. [map ?G yb]) (map (map ?fb) ?X) = entries a" .
  have "\<lparr>shape = [B, 1, K, 2, C * (C + 1) div 2],
      entries = map (\<lambda>yb. [map ?G yb]) (map (map ?fb) ?X)\<rparr> = a"
    using sh P ent by (intro tensor_eqI) simp_all
  then have "finv ?m = Inr a"
    using finv_lift [OF wf] by (simp only: tensor.select_convs)
  with enc show ?thesis by blast
qed

lemma ex_packed:
  "has_shape5 \<lparr>shape = [1, 1, 1, 2, 3], entries = [[[[[1, 2, 3], [0, 5, 0]]]]]\<rparr> 1 1 1 2 3"
  "hermitian_consistent \<lparr>shape = [1, 1, 1, 2, 3], entries = [[[[[1, 2, 3], [0, 5, 0]]]]]\<rparr>"
  by (simp add: has_shape5_def sized_def scalar_def) code_simp

theorem finv_f_roundtrip_witness:
  "has_shape5 \<lparr>shape = [1, 1, 1, 2, 3], entries = [[[[[1, 2, 3], [0, 5, 0]]]]]\<rparr> 1 1 1 2 3 \<and>
   (3::nat) = 2 * (2 + 1) div 2 \<and>
   hermitian_consistent \<lparr>shape = [1, 1, 1, 2, 3], entries = [[[[[1, 2, 3], [0, 5, 0]]]]]\<rparr> \<and>
   (\<exists>m. f \<lparr>shape = [1, 1, 1, 2, 3], entries = [[[[[1, 2, 3], [0, 5, 0]]]]]\<rparr> = Inr m \<and>
        finv m = Inr \<lparr>shape = [1, 1, 1, 2, 3], entries = [[[[[1, 2, 3], [0, 5, 0]]]]]\<rparr>)"
proof -
  have p: "(3::nat) = 2 * (2 + 1) div 2" by simp
  from finv_f_roundtrip [OF ex_packed(1) p ex_packed(2)] ex_packed p show ?thesis by blast
qed

theorem f_symmetric_witness:
  "has_shape5 \<lparr>shape = [1, 1, 1, 2, 3], entries = [[[[[1, 2, 3], [0, 5, 0]]]]]\<rparr> 1 1 1 2 3 \<and>
   (3::nat) = 2 * (2 + 1) div 2 \<and>
   hermitian_consistent \<lparr>shape = [1, 1, 1, 2, 3], entries = [[[[[1, 2, 3], [0, 5, 0]]]]]\<rparr> \<and>
   (\<exists>m. f \<lparr>shape = [1, 1, 1, 2, 3], entries = [[[[[1, 2, 3], [0, 5, 0]]]]]\<rparr> = Inr m \<and>
        has_shape4 m 1 1 (2 * 2) (2 * 2) \<and> transpose23 m = m)"
proof -
  have p: "(3::nat) = 2 * (2 + 1) div 2" by simp
  from f_symmetric [OF ex_packed(1) p ex_packed(2)] ex_packed p show ?thesis by blast
qed

subsection \<open>The index rule of the packed codec\<close>

lemma triu_cover:
  assumes "r < 2 * n" "c < 2 * n"
  shows "\<exists>p<length (triu_pairs n n). \<exists>i j. triu_pairs n n ! p = (i, j) \<and>
     (r, c) \<in> {(2 * j, 2 * i), (2 * i, 2 * j), (2 * j + 1, 2 * i + 1), (2 * i + 1, 2 * j + 1),
       (2 * i, 2 * j + 1), (2 * j + 1, 2 * i), (2 * i + 1, 2 * j), (2 * j, 2 * i + 1)}"
proof -
  define i where "i = min (r div 2) (c div 2)"
  define j where "j = max (r div 2) (c div 2)"
  have "(i, j) \<in> set (triu_pairs n n)"
    using assms by (auto simp: set_triu_pairs i_def j_def)
  then obtain p where p: "p < length (triu_pairs n n)" "triu_pairs n n ! p = (i, j)"
    by (auto simp: in_set_conv_nth)
  have "(r = 2 * i \<or> r = 2 * i + 1) \<and> (c = 2 * j \<or> c = 2 * j + 1) \<or>
        (r = 2 * j \<or> r = 2 * j + 1) \<and> (c = 2 * i \<or> c = 2 * i + 1)"
    unfolding i_def j_def min_def max_def by presburger
  then have "(r, c) \<in> {(2 * j, 2 * i), (2 * i, 2 * j), (2 * j + 1, 2 * i + 1), (2 * i + 1, 2 * j + 1),
       (2 * i, 2 * j + 1), (2 * j + 1, 2 * i), (2 * i + 1, 2 * j), (2 * j, 2 * i + 1)}"
    by auto
  with p show ?thesis by blast
qed

lemma f_entry:
  assumes a: "has_shape5 a B 1 K 2 P" and b: "b < B" and k: "k < K"
  shows "map (map u) (map hd (entries a)) ! b ! k = u (entries a ! b ! 0 ! k)"
    and "sized 2 (sized P scalar) (entries a ! b ! 0 ! k)"
proof -
  let ?Q = "sized 2 (sized P scalar)"
  have E: "sized B (sized 1 (sized K ?Q)) (entries a)"
    using a by (auto simp: has_shape5_def)
  then have "entries a ! b \<in> set (entries a)" using b by (simp add: sized_def)
  with E have e: "sized 1 (sized K ?Q) (entries a ! b)" by (auto simp: sized_def list_all_iff)
  then obtain xb where xb: "entries a ! b = [xb]" by (cases "entries a ! b") (auto simp: sized_def)
  with e have sx: "sized K ?Q xb" by (simp add: sized_def)
  then have "xb ! k \<in> set xb" using k by (simp add: sized_def)
  with sx show "?Q (entries a ! b ! 0 ! k)" using xb by (auto simp: sized_def list_all_iff)
  show "map (map u) (map hd (entries a)) ! b ! k = u (entries a ! b ! 0 ! k)"
    using E b k xb sx by (simp add: sized_def)
qed

text \<open>
  C5, as the code has it.  For every packed input of shape \<open>[B, 1, K, 2, P]\<close> with
  \<open>P = C (C + 1) / 2\<close>, every batch item \<open>b\<close>, bin \<open>k\<close> and packed position \<open>p\<close> with index
  pair \<open>(i, j)\<close>, real part \<open>r\<close> and imaginary part \<open>x\<close>: the block of \<open>f a\<close> holds \<open>r\<close> at
  \<open>(2j, 2i)\<close>, \<open>(2i, 2j)\<close>, \<open>(2j+1, 2i+1)\<close>, \<open>(2i+1, 2j+1)\<close> and \<open>x\<close> at \<open>(2i+1, 2j)\<close>,
  \<open>(2j, 2i+1)\<close>; at \<open>(2i, 2j+1)\<close> and \<open>(2j+1, 2i)\<close> it holds \<open>-x\<close> when \<open>i < j\<close> and \<open>x\<close>
  when \<open>i = j\<close>, where the two positions are the two positions of \<open>x\<close> and the later
  assignments win.  The eight positions of all packed positions cover the block.
\<close>

theorem f_index_rule:
  assumes a: "has_shape5 a B 1 K 2 P" and P: "P = C * (C + 1) div 2"
    and b: "b < B" and k: "k < K" and p: "p < P" and ij: "triu_pairs C C ! p = (i, j)"
  shows "\<exists>m. f a = Inr m \<and> has_shape4 m B K (2 * C) (2 * C) \<and>
    (let M = entries m ! b ! k;
         r = entries a ! b ! 0 ! k ! 0 ! p;
         x = entries a ! b ! 0 ! k ! 1 ! p
     in i \<le> j \<and> j < C \<and>
        M ! (2 * j) ! (2 * i) = r \<and> M ! (2 * i) ! (2 * j) = r \<and>
        M ! (2 * j + 1) ! (2 * i + 1) = r \<and> M ! (2 * i + 1) ! (2 * j + 1) = r \<and>
        M ! (2 * i + 1) ! (2 * j) = x \<and> M ! (2 * j) ! (2 * i + 1) = x \<and>
        M ! (2 * i) ! (2 * j + 1) = (if i = j then x else - x) \<and>
        M ! (2 * j + 1) ! (2 * i) = (if i = j then x else - x)) \<and>
    (\<forall>r<2 * C. \<forall>c<2 * C. \<exists>p<P. \<exists>i j. triu_pairs C C ! p = (i, j) \<and>
       (r, c) \<in> {(2 * j, 2 * i), (2 * i, 2 * j), (2 * j + 1, 2 * i + 1), (2 * i + 1, 2 * j + 1),
         (2 * i, 2 * j + 1), (2 * j + 1, 2 * i), (2 * i + 1, 2 * j), (2 * j, 2 * i + 1)})"
proof -
  let ?Q = "sized 2 (sized P scalar)"
  let ?X = "map hd (entries a)"
  let ?fb = "\<lambda>x. f_bin C (x ! 0) (x ! 1)"
  let ?m = "\<lparr>shape = [B, K, 2 * C, 2 * C], entries = map (map ?fb) ?X\<rparr>"
  let ?x = "entries a ! b ! 0 ! k"
  have E: "sized B (sized 1 (sized K ?Q)) (entries a)"
    using a by (auto simp: has_shape5_def)
  have X: "sized B (sized K ?Q) ?X" by (rule squeezed_sized [OF E])
  have enc: "f a = Inr ?m" by (rule f_lift [OF a P])
  have wf: "has_shape4 ?m B K (2 * C) (2 * C)"
    using X by (auto simp: has_shape4_def sized_map f_bin_sized elim!: sized_mono)
  have T: "length (triu_pairs C C) = P" by (simp add: length_triu_pairs P)
  have M: "entries ?m ! b ! k = f_bin C (?x ! 0) (?x ! 1)"
    using f_entry(1) [OF a b k, of ?fb] by simp
  note pi = packed_item [OF f_entry(2) [OF a b k]]
  have pT: "p < length (triu_pairs C C)" using p T by simp
  then have "(i, j) \<in> set (triu_pairs C C)" using ij by (metis nth_mem)
  then have le: "i \<le> j" "j < C" by (auto simp: set_triu_pairs)
  note e = f_bin_entries [of "?x ! 0" C "?x ! 1" p i j, unfolded T, OF pi(1) pi(2) p ij]
  have rule: "let M = entries ?m ! b ! k;
         r = entries a ! b ! 0 ! k ! 0 ! p;
         x = entries a ! b ! 0 ! k ! 1 ! p
     in i \<le> j \<and> j < C \<and>
        M ! (2 * j) ! (2 * i) = r \<and> M ! (2 * i) ! (2 * j) = r \<and>
        M ! (2 * j + 1) ! (2 * i + 1) = r \<and> M ! (2 * i + 1) ! (2 * j + 1) = r \<and>
        M ! (2 * i + 1) ! (2 * j) = x \<and> M ! (2 * j) ! (2 * i + 1) = x \<and>
        M ! (2 * i) ! (2 * j + 1) = (if i = j then x else - x) \<and>
        M ! (2 * j + 1) ! (2 * i) = (if i = j then x else - x)"
    unfolding M Let_def using e le by (simp add: mult.commute)
  have cover: "\<forall>r<2 * C. \<forall>c<2 * C. \<exists>p<P. \<exists>i j. triu_pairs C C ! p = (i, j) \<and>
       (r, c) \<in> {(2 * j, 2 * i), (2 * i, 2 * j), (2 * j + 1, 2 * i + 1), (2 * i + 1, 2 * j + 1),
         (2 * i, 2 * j + 1), (2 * j + 1, 2 * i), (2 * i + 1, 2 * j), (2 * j, 2 * i + 1)}"
    using triu_cover [of _ C] unfolding T by blast
  from enc wf rule cover show ?thesis by blast
qed

theorem f_index_rule_witness:
  "has_shape5 \<lparr>shape = [1, 1, 1, 2, 3], entries = [[[[[1, 2, 3], [4, 5, 6]]]]]\<rparr> 1 1 1 2 3 \<and>
   (3::nat) = 2 * (2 + 1) div 2 \<and> (0::nat) < 1 \<and> (1::nat) < 3 \<and> triu_pairs 2 2 ! 1 = (0, 1) \<and>
   (\<exists>m. f \<lparr>shape = [1, 1, 1, 2, 3], entries = [[[[[1, 2, 3], [4, 5, 6]]]]]\<rparr> = Inr m \<and>
      entries m ! 0 ! 0 ! (2 * 1) ! (2 * 0) = 2 \<and> entries m ! 0 ! 0 ! (2 * 0) ! (2 * 1) = 2 \<and>
      entries m ! 0 ! 0 ! (2 * 1 + 1) ! (2 * 0 + 1) = 2 \<and>
      entries m ! 0 ! 0 ! (2 * 0 + 1) ! (2 * 1 + 1) = 2 \<and>
      entries m ! 0 ! 0 ! (2 * 0 + 1) ! (2 * 1) = 5 \<and> entries m ! 0 ! 0 ! (2 * 1) ! (2 * 0 + 1) = 5 \<and>
      entries m ! 0 ! 0 ! (2 * 0) ! (2 * 1 + 1) = - 5 \<and>
      entries m ! 0 ! 0 ! (2 * 1 + 1) ! (2 * 0) = - 5)"
proof -
  let ?a = "\<lparr>shape = [1, 1, 1, 2, 3], entries = [[[[[1, 2, 3], [4, 5, 6::real]]]]]\<rparr>"
  have h: "has_shape5 ?a 1 1 1 2 3"
    by (simp add: has_shape5_def sized_def scalar_def)
  have p: "(3::nat) = 2 * (2 + 1) div 2" by simp
  have q: "triu_pairs 2 2 ! 1 = (0, 1)" by code_simp
  have o: "(0::nat) < 1" "(1::nat) < 3" by simp_all
  from f_index_rule [OF h p o(1) o(1) o(2) q] obtain m where m: "f ?a = Inr m"
    and r: "let M = entries m ! 0 ! 0; r = entries ?a ! 0 ! 0 ! 0 ! 0 ! 1;
         x = entries ?a ! 0 ! 0 ! 0 ! 1 ! 1
     in (0::nat) \<le> 1 \<and> (1::nat) < 2 \<and>
        M ! (2 * 1) ! (2 * 0) = r \<and> M ! (2 * 0) ! (2 * 1) = r \<and>
        M ! (2 * 1 + 1) ! (2 * 0 + 1) = r \<and> M ! (2 * 0 + 1) ! (2 * 1 + 1) = r \<and>
        M ! (2 * 0 + 1) ! (2 * 1) = x \<and> M ! (2 * 1) ! (2 * 0 + 1) = x \<and>
        M ! (2 * 0) ! (2 * 1 + 1) = (if (0::nat) = 1 then x else - x) \<and>
        M ! (2 * 1 + 1) ! (2 * 0) = (if (0::nat) = 1 then x else - x)"
    by blast
  from r have "entries m ! 0 ! 0 ! (2 * 1) ! (2 * 0) = 2 \<and> entries m ! 0 ! 0 ! (2 * 0) ! (2 * 1) = 2 \<and>
      entries m ! 0 ! 0 ! (2 * 1 + 1) ! (2 * 0 + 1) = 2 \<and>
      entries m ! 0 ! 0 ! (2 * 0 + 1) ! (2 * 1 + 1) = 2 \<and>
      entries m ! 0 ! 0 ! (2 * 0 + 1) ! (2 * 1) = 5 \<and> entries m ! 0 ! 0 ! (2 * 1) ! (2 * 0 + 1) = 5 \<and>
      entries m ! 0 ! 0 ! (2 * 0) ! (2 * 1 + 1) = - 5 \<and>
      entries m ! 0 ! 0 ! (2 * 1 + 1) ! (2 * 0) = - 5"
    by (simp add: Let_def)
  with m have ex: "\<exists>m. f ?a = Inr m \<and>
      entries m ! 0 ! 0 ! (2 * 1) ! (2 * 0) = 2 \<and> entries m ! 0 ! 0 ! (2 * 0) ! (2 * 1) = 2 \<and>
      entries m ! 0 ! 0 ! (2 * 1 + 1) ! (2 * 0 + 1) = 2 \<and>
      entries m ! 0 ! 0 ! (2 * 0 + 1) ! (2 * 1 + 1) = 2 \<and>
      entries m ! 0 ! 0 ! (2 * 0 + 1) ! (2 * 1) = 5 \<and> entries m ! 0 ! 0 ! (2 * 1) ! (2 * 0 + 1) = 5 \<and>
      entries m ! 0 ! 0 ! (2 * 0) ! (2 * 1 + 1) = - 5 \<and>
      entries m ! 0 ! 0 ! (2 * 1 + 1) ! (2 * 0) = - 5"
    by (intro exI [of _ m] conjI) simp_all
  from h p o q ex show ?thesis by (intro conjI)
qed

theorem f_diagonal_counterexample:
  "has_shape5 \<lparr>shape = [1, 1, 1, 2, 1], entries = [[[[[7], [1]]]]]\<rparr> 1 1 1 2 1 \<and>
   triu_pairs 1 1 ! 0 = (0, 0) \<and>
   f \<lparr>shape = [1, 1, 1, 2, 1], entries = [[[[[7], [1]]]]]\<rparr> =
     Inr \<lparr>shape = [1, 1, 2, 2], entries = [[[[7, 1], [1, 7]]]]\<rparr> \<and>
   [[[[7, 1], [1, 7::real]]]] ! 0 ! 0 ! (2 * 0) ! (2 * 0 + 1) \<noteq> - ([[[[[7], [1::real]]]]] ! 0 ! 0 ! 0 ! 1 ! 0)"
proof -
  have "has_shape5 \<lparr>shape = [1, 1, 1, 2, 1], entries = [[[[[7], [1]]]]]\<rparr> 1 1 1 2 1"
    by (simp add: has_shape5_def sized_def scalar_def)
  moreover have "triu_pairs 1 1 ! 0 = (0, 0)" by code_simp
  moreover have "f \<lparr>shape = [1, 1, 1, 2, 1], entries = [[[[[7], [1]]]]]\<rparr> =
     Inr \<lparr>shape = [1, 1, 2, 2], entries = [[[[7, 1], [1, 7]]]]\<rparr>"
    by code_simp
  moreover have "[[[[7, 1], [1, 7::real]]]] ! 0 ! 0 ! (2 * 0) ! (2 * 0 + 1) \<noteq>
      - ([[[[[7], [1::real]]]]] ! 0 ! 0 ! 0 ! 1 ! 0)"
    by simp
  ultimately show ?thesis by (intro conjI)
qed

lemma triangular_pos: "0 < C \<Longrightarrow> 0 < C * (C + 1) div 2" for C :: nat
  by (cases C) simp_all

lemma not_broadcastable3: "p \<noteq> t \<Longrightarrow> p \<noteq> 1 \<Longrightarrow> \<not> broadcastable [a, b, p] [a', b', t]"
  by (simp add: broadcastable_def)

text \<open>
  C6, as the code has it.  \<^verbatim>\<open>f\<close> has no check of its own on the packed size \<open>P\<close>.  For an
  input whose \<open>P\<close> is positive and not a triangular number, the first indexed assignment
  of \<^verbatim>\<open>f\<close> fails: the \<open>P\<close> packed values cannot be broadcast to the \<open>C (C + 1) / 2\<close>
  positions of the rounded channel count \<open>C\<close>.  \<^verbatim>\<open>forward\<close> calls \<^verbatim>\<open>f\<close> first and fails
  with it.
\<close>

theorem f_rejects_non_triangular:
  assumes a: "has_shape5 a B 1 K 2 P" and pos: "0 < P"
    and nt: "\<not> (\<exists>C. 0 < C \<and> P = C * (C + 1) div 2)"
  shows "f a = Inl ShapeMismatch \<and> forward la a b = Inl ShapeMismatch"
proof -
  define C where "C = n_channels_of P"
  define ps where "ps = triu_pairs C C"
  let ?ws = "drop_axis1 (transpose34 a)"
  have sh: "shape a = [B, 1, K, 2, P]" using a by (simp add: has_shape5_def)
  have shs: "shape ?ws = [B, K, P, 2]"
    using sh by (simp add: drop_axis1_def transpose34_def)
  have p: "shape ?ws ! 0 = B" "shape ?ws ! 1 = K" "shape ?ws ! 2 = P"
    by (simp_all add: shs)
  have T: "length ps = C * (C + 1) div 2" by (simp add: ps_def length_triu_pairs)
  have "0 < C \<Longrightarrow> P \<noteq> C * (C + 1) div 2" using nt by blast
  moreover have "C = 0 \<Longrightarrow> P \<noteq> C * (C + 1) div 2" using pos by simp
  ultimately have ne: "P \<noteq> length ps" unfolding T by (cases "C = 0") simp_all
  have "P \<noteq> 1 * (1 + 1) div 2" using nt by blast
  then have ne1: "P \<noteq> 1" by simp
  obtain re where re: "select_last4 0 ?ws = Inr re" "shape re = [B, K, P]"
    using packed_view [OF a, of 0] by simp
  have inb: "in_bounds (map (\<lambda>i. i * 2) (map snd ps)) (map (\<lambda>i. i * 2) (map fst ps))
      (zeros4 B K (2 * C) (2 * C))"
    using triu_index_bounds [of C]
    by (simp add: in_bounds_def list_all_iff zeros4_def ps_def del: map_map)
  have put: "index_put (map (\<lambda>i. i * 2) (map snd ps)) (map (\<lambda>i. i * 2) (map fst ps))
      (zeros4 B K (2 * C) (2 * C)) re = Inl ShapeMismatch"
    unfolding index_put_def using inb re(2) ne ne1
    by (simp add: not_broadcastable3 del: map_map)
  have sq: "squeeze1 (transpose34 a) = Some ?ws"
    using sh by (simp add: squeeze1_def transpose34_def)
  from put have ff: "f a = Inl ShapeMismatch"
    unfolding f_def sq option.case Let_def p triu_indices_def fst_conv snd_conv
    unfolding C_def [symmetric] ps_def [symmetric]
    by (simp add: re bind_def)
  then have "forward la a b = Inl ShapeMismatch"
    by (simp add: forward_def Let_def bind_def)
  with ff show ?thesis by simp
qed

theorem f_rejects_non_triangular_witness:
  "has_shape5 \<lparr>shape = [1, 1, 1, 2, 2], entries = [[[[[1, 2], [3, 4]]]]]\<rparr> 1 1 1 2 2 \<and> (0::nat) < 2 \<and>
   \<not> (\<exists>C. 0 < C \<and> (2::nat) = C * (C + 1) div 2) \<and>
   f \<lparr>shape = [1, 1, 1, 2, 2], entries = [[[[[1, 2], [3, 4]]]]]\<rparr> = Inl ShapeMismatch \<and>
   (\<forall>la b. forward la \<lparr>shape = [1, 1, 1, 2, 2], entries = [[[[[1, 2], [3, 4]]]]]\<rparr> b =
      Inl ShapeMismatch)"
proof -
  have h: "has_shape5 \<lparr>shape = [1, 1, 1, 2, 2], entries = [[[[[1, 2], [3, 4]]]]]\<rparr> 1 1 1 2 2"
    by (simp add: has_shape5_def sized_def scalar_def)
  have pos: "(0::nat) < 2" by simp
  have nt: "\<not> (\<exists>C. 0 < C \<and> (2::nat) = C * (C + 1) div 2)"
  proof
    assume "\<exists>C. 0 < C \<and> (2::nat) = C * (C + 1) div 2"
    then obtain C :: nat where C: "0 < C" "2 = C * (C + 1) div 2" by blast
    have "C < 3"
    proof (rule ccontr)
      assume "\<not> C < 3"
      then have "3 \<le> C" by simp
      then have "3 * (3 + 1) \<le> C * (C + 1)" by (intro mult_le_mono) simp_all
      then have "6 \<le> C * (C + 1) div 2" by simp
      with C show False by simp
    qed
    with C(1) have "C = 1 \<or> C = 2" by auto
    with C(2) show False by auto
  qed
  note r = f_rejects_non_triangular [OF h pos nt]
  have "\<forall>la b. forward la \<lparr>shape = [1, 1, 1, 2, 2], entries = [[[[[1, 2], [3, 4]]]]]\<rparr> b =
      Inl ShapeMismatch"
    by (intro allI) (rule r [THEN conjunct2])
  with h pos nt r [THEN conjunct1] show ?thesis by (intro conjI)
qed

theorem f_empty_packed_counterexample:
  "has_shape5 \<lparr>shape = [1, 1, 1, 2, 0], entries = [[[[[], []]]]]\<rparr> 1 1 1 2 0 \<and>
   \<not> (\<exists>C. 0 < C \<and> (0::nat) = C * (C + 1) div 2) \<and>
   f \<lparr>shape = [1, 1, 1, 2, 0], entries = [[[[[], []]]]]\<rparr> =
     Inr \<lparr>shape = [1, 1, 0, 0], entries = [[[]]]\<rparr>"
proof -
  have "has_shape5 \<lparr>shape = [1, 1, 1, 2, 0], entries = [[[[[], []]]]]\<rparr> 1 1 1 2 0"
    by (simp add: has_shape5_def sized_def scalar_def)
  moreover have "f \<lparr>shape = [1, 1, 1, 2, 0], entries = [[[[[], []]]]]\<rparr> =
     Inr \<lparr>shape = [1, 1, 0, 0], entries = [[[]]]\<rparr>"
    by code_simp
  moreover have "\<not> (\<exists>C. 0 < C \<and> (0::nat) = C * (C + 1) div 2)"
  proof
    assume "\<exists>C. 0 < C \<and> (0::nat) = C * (C + 1) div 2"
    then obtain C :: nat where C: "0 < C" "0 = C * (C + 1) div 2" by blast
    from triangular_pos [OF C(1)] C(2) show False by simp
  qed
  ultimately show ?thesis by (intro conjI)
qed

subsection \<open>The entries of the block form of a full complex matrix\<close>

lemma g_bin_slices_odd:
  assumes w: "sized C (sized C (sized 2 scalar)) w"
  shows "slice_get (strided (Suc 0) (2 * C)) (strided (Suc 0) (2 * C)) (g_bin w) = map (map (\<lambda>v. v ! 0)) w"
    and "slice_get (strided 0 (2 * C)) (strided (Suc 0) (2 * C)) (g_bin w) =
         map (map (\<lambda>x. -1 * x)) (map (map (\<lambda>v. v ! 1)) w)"
proof -
  let ?ev = "strided 0 (2 * C)" and ?od = "strided (Suc 0) (2 * C)"
  let ?re = "map (map (\<lambda>v. v ! 0)) w" and ?im = "map (map (\<lambda>v. v ! 1)) w"
  let ?nim = "map (map (\<lambda>x. -1 * x)) ?im"
  let ?z = "zero_mat (2 * C) (2 * C)"
  have len: "length w = C" and rows: "\<forall>r\<in>set w. length r = C"
    using w by (auto simp: sized_def list_all_iff)
  have n: "length ?ev = C" "length ?od = C"
    by (auto simp: length_strided)
  have bnd: "\<forall>r\<in>set (strided s (2 * C)). r < 2 * C" for s
    by (simp add: set_strided)
  define m1 where "m1 = slice_set ?ev ?ev ?z ?re"
  define m2 where "m2 = slice_set ?od ?od m1 ?re"
  define m3 where "m3 = slice_set ?ev ?od m2 ?nim"
  have gb: "g_bin w = slice_set ?od ?ev m3 ?im"
    using len by (simp add: g_bin_def Let_def m1_def m2_def m3_def)
  have d1: "length m1 = 2 * C" "\<forall>r<2 * C. length (m1 ! r) = 2 * C"
    by (simp_all add: m1_def)
  have d2: "length m2 = 2 * C" "\<forall>r<2 * C. length (m2 ! r) = 2 * C"
    using d1 by (simp_all add: m2_def)
  have d3: "length m3 = 2 * C" "\<forall>r<2 * C. length (m3 ! r) = 2 * C"
    using d2 by (simp_all add: m3_def)
  have "slice_get ?od ?od (g_bin w) = slice_get ?od ?od m3"
    unfolding gb using bnd d3 n len strided_disjoint [of "2 * C"]
    by (intro slice_get_set_other) auto
  also have "\<dots> = slice_get ?od ?od m2"
    unfolding m3_def using bnd d2 n len strided_disjoint [of "2 * C"]
    by (intro slice_get_set_other) auto
  also have "\<dots> = ?re"
    unfolding m2_def using bnd d1 n len rows
    by (intro slice_get_set_same) auto
  finally show "slice_get ?od ?od (g_bin w) = ?re" .
  have "slice_get ?ev ?od (g_bin w) = slice_get ?ev ?od m3"
    unfolding gb using bnd d3 n len strided_disjoint [of "2 * C"]
    by (intro slice_get_set_other) auto
  also have "\<dots> = ?nim"
    unfolding m3_def using bnd d2 n len rows
    by (intro slice_get_set_same) auto
  finally show "slice_get ?ev ?od (g_bin w) = ?nim" .
qed

lemma slice_get_nth:
  "a < length rs \<Longrightarrow> b < length cs \<Longrightarrow> slice_get rs cs m ! a ! b = m ! (rs ! a) ! (cs ! b)"
  by (simp add: slice_get_def)

lemma g_bin_entries:
  assumes w: "sized C (sized C (sized 2 scalar)) w" and a: "a < C" and b: "b < C"
  shows "g_bin w ! (2 * a) ! (2 * b) = w ! a ! b ! 0"
    and "g_bin w ! (2 * a + 1) ! (2 * b + 1) = w ! a ! b ! 0"
    and "g_bin w ! (2 * a) ! (2 * b + 1) = -1 * w ! a ! b ! 1"
    and "g_bin w ! (2 * a + 1) ! (2 * b) = w ! a ! b ! 1"
proof -
  let ?ev = "strided 0 (2 * C)" and ?od = "strided (Suc 0) (2 * C)"
  have len: "length w = C" and rows: "\<forall>r\<in>set w. length r = C"
    using w by (auto simp: sized_def list_all_iff)
  then have la: "length (w ! a) = C" using a by simp
  have n: "length ?ev = C" "length ?od = C"
    by (auto simp: length_strided)
  have i: "?ev ! a = 2 * a" "?ev ! b = 2 * b" "?od ! a = 2 * a + 1" "?od ! b = 2 * b + 1"
    using a b by (simp_all add: nth_strided)
  have "g_bin w ! (?ev ! a) ! (?ev ! b) = slice_get ?ev ?ev (g_bin w) ! a ! b"
    using a b n by (simp add: slice_get_nth)
  then show "g_bin w ! (2 * a) ! (2 * b) = w ! a ! b ! 0"
    using a b len la by (simp add: i g_bin_slices(1) [OF w])
  have "g_bin w ! (?od ! a) ! (?od ! b) = slice_get ?od ?od (g_bin w) ! a ! b"
    using a b n by (simp add: slice_get_nth)
  then show "g_bin w ! (2 * a + 1) ! (2 * b + 1) = w ! a ! b ! 0"
    using a b len la by (simp add: i g_bin_slices_odd(1) [OF w])
  have "g_bin w ! (?ev ! a) ! (?od ! b) = slice_get ?ev ?od (g_bin w) ! a ! b"
    using a b n by (simp add: slice_get_nth)
  then show "g_bin w ! (2 * a) ! (2 * b + 1) = -1 * w ! a ! b ! 1"
    using a b len la by (simp add: i g_bin_slices_odd(2) [OF w])
  have "g_bin w ! (?od ! a) ! (?ev ! b) = slice_get ?od ?ev (g_bin w) ! a ! b"
    using a b n by (simp add: slice_get_nth)
  then show "g_bin w ! (2 * a + 1) ! (2 * b) = w ! a ! b ! 1"
    using a b len la by (simp add: i g_bin_slices(2) [OF w])
qed

lemma ginv_bin_entries:
  assumes "length m = 2 * n" "i < n" "j < n"
  shows "ginv_bin m ! i ! j = [m ! (2 * i) ! (2 * j), m ! (2 * i + 1) ! (2 * j)]"
proof -
  let ?ev = "strided 0 (2 * n)" and ?od = "strided (Suc 0) (2 * n)"
  have n: "length ?ev = n" "length ?od = n"
    by (auto simp: length_strided)
  have i: "?ev ! i = 2 * i" "?ev ! j = 2 * j" "?od ! i = 2 * i + 1"
    using assms by (simp_all add: nth_strided)
  show ?thesis
    using assms n i by (simp add: ginv_bin_def Let_def slice_get_def)
qed

lemma eye_complex_sized: "sized n (sized n (sized 2 scalar)) (eye_complex n)"
  by (simp add: eye_complex_def sized_def list_all_iff scalar_def)


lemma mat_eqI:
  assumes "length m = n" "\<forall>r<n. length (m ! r) = n"
    and "\<And>r c. r < n \<Longrightarrow> c < n \<Longrightarrow> m ! r ! c = (if r = c then 1 else 0)"
  shows "m = eye n"
proof (rule nth_equalityI)
  show "length m = length (eye n)" using assms by (simp add: eye_def)
next
  fix r assume "r < length m"
  then have r: "r < n" using assms by simp
  show "m ! r = eye n ! r"
  proof (rule nth_equalityI)
    show "length (m ! r) = length (eye n ! r)" using assms r by (simp add: eye_def)
  next
    fix c assume "c < length (m ! r)"
    then have "c < n" using assms r by simp
    then show "m ! r ! c = eye n ! r ! c" using assms(3) r by (simp add: eye_def)
  qed
qed

lemma parity_ne' [simp]:
  "2 * a \<noteq> Suc (2 * b)" "Suc (2 * a) \<noteq> 2 * b" "2 * a \<noteq> 2 * b + 1" "2 * a + 1 \<noteq> 2 * b"
  for a b :: nat
  by presburger+

lemma g_bin_eye: "g_bin (eye_complex n) = eye (2 * n)"
proof (rule mat_eqI)
  show "length (g_bin (eye_complex n)) = 2 * n"
    by (simp add: g_bin_dims eye_complex_def)
  show "\<forall>r<2 * n. length (g_bin (eye_complex n) ! r) = 2 * n"
    by (simp add: g_bin_dims eye_complex_def)
next
  fix r c assume r: "r < 2 * n" and c: "c < 2 * n"
  define a where "a = r div 2"
  define b where "b = c div 2"
  have ab: "a < n" "b < n" using r c by (auto simp: a_def b_def)
  have e: "eye_complex n ! a ! b = [if a = b then 1 else 0, 0]"
    using ab by (simp add: eye_complex_def)
  note g = g_bin_entries [OF eye_complex_sized ab, unfolded e]
  have g1: "g_bin (eye_complex n) ! (2 * a) ! (2 * b) = (if a = b then 1 else 0)"
    and g2: "g_bin (eye_complex n) ! (2 * a + 1) ! (2 * b + 1) = (if a = b then 1 else 0)"
    and g3: "g_bin (eye_complex n) ! (2 * a) ! (2 * b + 1) = 0"
    and g4: "g_bin (eye_complex n) ! (2 * a + 1) ! (2 * b) = 0"
    using g by simp_all
  have "r = 2 * a \<or> r = 2 * a + 1" "c = 2 * b \<or> c = 2 * b + 1"
    unfolding a_def b_def by presburger+
  then consider "r = 2 * a" "c = 2 * b" | "r = 2 * a + 1" "c = 2 * b + 1"
    | "r = 2 * a" "c = 2 * b + 1" | "r = 2 * a + 1" "c = 2 * b"
    by blast
  then show "g_bin (eye_complex n) ! r ! c = (if r = c then 1 else 0)"
  proof cases
    case 1
    then show ?thesis using g1 by simp
  next
    case 2
    then show ?thesis using g2 by simp
  next
    case 3
    then show ?thesis using g3 by simp
  next
    case 4
    then show ?thesis using g4 by simp
  qed
qed

subsection \<open>The reference matrix of the decomposition\<close>

lemma f_bin_identity:
  "f_bin n (map (\<lambda>(i, j). if i = j then 1 else 0) (triu_pairs n n)) (replicate (n * (n + 1) div 2) 0)
     = eye (2 * n)"
proof (rule mat_eqI)
  let ?re = "map (\<lambda>(i, j). if i = j then 1 else 0 :: real) (triu_pairs n n)"
  let ?im = "replicate (n * (n + 1) div 2) (0 :: real)"
  let ?M = "f_bin n ?re ?im"
  show "length ?M = 2 * n" by (simp add: f_bin_dims)
  show "\<forall>r<2 * n. length (?M ! r) = 2 * n" by (simp add: f_bin_dims)
  fix r c assume r: "r < 2 * n" and c: "c < 2 * n"
  have re: "length ?re = length (triu_pairs n n)" by simp
  have im: "length ?im = length (triu_pairs n n)" by (simp add: length_triu_pairs)
  have up: "?M ! r ! c = (if r = c then 1 else 0)"
    if le: "r div 2 \<le> c div 2" and r: "r < 2 * n" and c: "c < 2 * n" for r c
  proof -
    define i where "i = r div 2"
    define j where "j = c div 2"
    have "(i, j) \<in> set (triu_pairs n n)"
      using le r c by (auto simp: set_triu_pairs i_def j_def)
    then obtain k where k: "k < length (triu_pairs n n)" "triu_pairs n n ! k = (i, j)"
      by (auto simp: in_set_conv_nth)
    have rk: "?re ! k = (if i = j then 1 else 0)" using k by simp
    have ik: "?im ! k = 0" using k by (simp add: length_triu_pairs)
    note e = f_bin_entries [OF re im k, unfolded rk ik]
    have e1: "?M ! (i * 2) ! (j * 2) = (if i = j then 1 else 0)"
      and e2: "?M ! (i * 2 + 1) ! (j * 2 + 1) = (if i = j then 1 else 0)"
      and e3: "?M ! (i * 2 + 1) ! (j * 2) = 0"
      and e4: "?M ! (i * 2) ! (j * 2 + 1) = 0"
      using e(1,3,5,7) by simp_all
    have "r = i * 2 \<or> r = i * 2 + 1" "c = j * 2 \<or> c = j * 2 + 1"
      unfolding i_def j_def by presburger+
    then consider "r = i * 2" "c = j * 2" | "r = i * 2 + 1" "c = j * 2 + 1"
      | "r = i * 2 + 1" "c = j * 2" | "r = i * 2" "c = j * 2 + 1"
      by blast
    then show ?thesis
    proof cases
      case 1
      then show ?thesis using e1 by simp
    next
      case 2
      then show ?thesis using e2 by simp
    next
      case 3
      then show ?thesis using e3 by simp
    next
      case 4
      then show ?thesis using e4 by simp
    qed
  qed
  show "?M ! r ! c = (if r = c then 1 else 0)"
  proof (cases "r div 2 \<le> c div 2")
    case True
    then show ?thesis using r c by (rule up)
  next
    case False
    then have "c div 2 \<le> r div 2" by simp
    then have "?M ! c ! r = (if c = r then 1 else 0)" using c r by (rule up)
    moreover have "?M ! r ! c = ?M ! c ! r" using re im r c by (rule f_bin_symmetric)
    ultimately show ?thesis by auto
  qed
qed

lemma identity_packed_shape: "has_shape5 (identity_packed B K C) B 1 K 2 (C * (C + 1) div 2)"
  by (simp add: identity_packed_def has_shape5_def sized_def list_all_iff scalar_def
      length_triu_pairs)

lemma f_identity_packed:
  "f (identity_packed B K C) =
     Inr \<lparr>shape = [B, K, 2 * C, 2 * C], entries = replicate B (replicate K (eye (2 * C)))\<rparr>"
proof -
  have "map (map (\<lambda>x. f_bin C (x ! 0) (x ! 1))) (map hd (entries (identity_packed B K C))) =
      replicate B (replicate K (eye (2 * C)))"
    using f_bin_identity [of C] by (simp add: identity_packed_def)
  with f_lift [OF identity_packed_shape refl, of B K C] show ?thesis by simp
qed

lemma g_identity:
  "g \<lparr>shape = [B, K, C, C, 2], entries = replicate B (replicate K (eye_complex C))\<rparr> =
     Inr \<lparr>shape = [B, K, 2 * C, 2 * C], entries = replicate B (replicate K (eye (2 * C)))\<rparr>"
proof -
  have "has_shape5 \<lparr>shape = [B, K, C, C, 2], entries = replicate B (replicate K (eye_complex C))\<rparr>
      B K C C 2"
    using eye_complex_sized [of C] by (simp add: has_shape5_def sized_def list_all_iff)
  from g_lift [OF this] show ?thesis by (simp add: g_bin_eye)
qed

text \<open>
  With at least one batch item and one frequency bin, the default branch of
  \<^verbatim>\<open>forward\<close> (identity built as a full complex matrix, encoded by \<open>g\<close>) and the branch
  for an explicit \<open>b\<close> that is the packed identity (encoded by \<open>f\<close>) build the same block
  matrix, and \<^verbatim>\<open>forward\<close> returns the same result.
\<close>

lemma forward_default_b_nonempty:
  assumes a: "has_shape5 a B 1 K 2 P" and P: "P = C * (C + 1) div 2"
    and B: "0 < B" and K: "0 < K"
  shows "forward la a None = forward la a (Some (identity_packed B K C))"
proof -
  have sh: "shape a = [B, 1, K, 2, P]" using a by (simp add: has_shape5_def)
  have nc: "n_channels_of P = C" unfolding P by (rule n_channels_triangular)
  have p: "shape a ! 0 = B" "shape a ! 2 = K" "shape a ! 4 = P" by (simp_all add: sh)
  have "bind (stack_copies K (eye_complex C)) (\<lambda>b1. bind (stack_copies B b1) (\<lambda>b2.
      g \<lparr>shape = [B, K, C, C, 2], entries = b2\<rparr>)) = f (identity_packed B K C)"
    using B K by (simp add: stack_copies_def bind_def g_identity f_identity_packed)
  then show ?thesis
    unfolding forward_def Let_def p nc by simp
qed

text \<open>
  C2 at an empty batch.  For an input with no batch item (\<open>B = 0\<close>) the default branch
  stacks an empty list of identity matrices and raises, whatever the linear algebra does;
  the branch for the explicit packed identity encodes the empty \<open>b\<close> and goes on to the
  linear algebra, and returns empty arrays when that passes an empty batch through.
\<close>

theorem forward_default_b_empty_batch:
  "has_shape5 \<lparr>shape = [0, 1, 1, 2, 1], entries = []\<rparr> 0 1 1 2 1 \<and>
   (\<forall>la. forward la \<lparr>shape = [0, 1, 1, 2, 1], entries = []\<rparr> None = Inl EmptyStack) \<and>
   forward
     \<lparr>cholesky = Inr, inverse = Inr, matmul = (\<lambda>x y. Inr x),
      symeig = (\<lambda>x. Inr (\<lparr>shape = [0, 1, 2], entries = []\<rparr>, x))\<rparr>
     \<lparr>shape = [0, 1, 1, 2, 1], entries = []\<rparr> (Some (identity_packed 0 1 1)) =
   Inr (\<lparr>shape = [0, 1, 1, 1, 2], entries = []\<rparr>, \<lparr>shape = [0, 1, 1, 1, 2], entries = []\<rparr>)"
proof -
  let ?a = "\<lparr>shape = [0, 1, 1, 2, 1], entries = [] :: t5\<rparr>"
  have h: "has_shape5 ?a 0 1 1 2 1"
    by (simp add: has_shape5_def sized_def)
  have fa: "f ?a = Inr \<lparr>shape = [0, 1, 2, 2], entries = []\<rparr>"
    using f_lift [OF h, of 1] by simp
  have nc: "n_channels_of 1 = 1" using n_channels_triangular [of 1] by simp
  have none: "forward la ?a None = Inl EmptyStack" for la
    using fa nc by (simp add: forward_def Let_def bind_def stack_copies_def)
  have fb: "f (identity_packed 0 1 1) = Inr \<lparr>shape = [0, 1, 2, 2], entries = []\<rparr>"
    using f_identity_packed [of 0 1 1] by simp
  have z: "zeros4 0 1 2 2 = \<lparr>shape = [0, 1, 2, 2], entries = []\<rparr>"
    by (simp add: zeros4_def)
  have ip: "index_put [0..<2] [0..<2] \<lparr>shape = [0, 1, 2, 2], entries = []\<rparr>
      \<lparr>shape = [0, 1, 2], entries = []\<rparr> = Inr \<lparr>shape = [0, 1, 2, 2], entries = []\<rparr>"
    by (simp add: index_put_def in_bounds_def broadcastable_def stretch3_def stretch_def list_all_iff)
  have tr: "transpose23 \<lparr>shape = [0, 1, 2, 2], entries = []\<rparr> = \<lparr>shape = [0, 1, 2, 2], entries = []\<rparr>"
    by (simp add: transpose23_def)
  have h4: "has_shape4 \<lparr>shape = [0, 1, 2, 2], entries = []\<rparr> 0 1 (2 * 1) (2 * 1)"
    by (simp add: has_shape4_def sized_def)
  have gi: "ginv \<lparr>shape = [0, 1, 2, 2], entries = []\<rparr> = Inr \<lparr>shape = [0, 1, 1, 1, 2], entries = []\<rparr>"
    using ginv_lift [OF h4] by simp
  have some: "forward
     \<lparr>cholesky = Inr, inverse = Inr, matmul = (\<lambda>x y. Inr x),
      symeig = (\<lambda>x. Inr (\<lparr>shape = [0, 1, 2], entries = []\<rparr>, x))\<rparr>
     ?a (Some (identity_packed 0 1 1)) =
   Inr (\<lparr>shape = [0, 1, 1, 1, 2], entries = []\<rparr>, \<lparr>shape = [0, 1, 1, 1, 2], entries = []\<rparr>)"
    using fa fb nc z ip tr gi by (simp add: forward_def Let_def bind_def)
  from h none some show ?thesis by (intro conjI allI)
qed

subsection \<open>The eigenvalue matrix\<close>

lemma bind_InrE:
  assumes "bind m k = Inr r"
  obtains x where "m = Inr x" "k x = Inr r"
  using assms by (cases m) (auto simp: bind_def)

lemma scatter_diag:
  assumes "length e = N" "r < N" "c < N"
  shows "scatter [0..<N] [0..<N] (zero_mat N N) e ! r ! c = (if r = c then e ! r else 0)"
proof (cases "r = c")
  case True
  have "scatter (map (\<lambda>x. x) (map (\<lambda>x. x) [0..<N])) (map (\<lambda>x. x) (map (\<lambda>x. x) [0..<N]))
      (zero_mat N N) e ! ([0..<N] ! r) ! ([0..<N] ! r) = e ! r"
    using assms by (intro scatter_in) (simp_all add: inj_on_def)
  with True assms show ?thesis by simp
next
  case False
  have "scatter (map (\<lambda>x. x) (map (\<lambda>x. x) [0..<N])) (map (\<lambda>x. x) (map (\<lambda>x. x) [0..<N]))
      (zero_mat N N) e ! r ! c = zero_mat N N ! r ! c"
    using False by (intro scatter_out) auto
  with False assms show ?thesis by (simp add: zero_mat_def)
qed

lemma scatter_diag_sized:
  "sized N (sized N scalar) (scatter [0..<N] [0..<N] (zero_mat N N) e)"
  by (auto simp: sized_def list_all_length scalar_def)

lemma forward_whitened:
  "forward la a b =
     bind (whitened la a b) (\<lambda>(csh, lsh_inv_T).
     bind (symeig la csh) (\<lambda>(es, ysh).
     bind (index_put [0..<2 * n_channels_of (shape a ! 4)] [0..<2 * n_channels_of (shape a ! 4)]
             (zeros4 (shape a ! 0) (shape a ! 2) (2 * n_channels_of (shape a ! 4))
                (2 * n_channels_of (shape a ! 4))) es) (\<lambda>dsh.
     bind (matmul la lsh_inv_T (transpose23 ysh)) (\<lambda>vsh.
     bind (ginv vsh) (\<lambda>vs.
     bind (ginv dsh) (\<lambda>ds.
     Inr (vs, ds)))))))"
  by (simp add: forward_def whitened_def Let_def bind_def split: sum.splits)


text \<open>
  C9.  Let \<^verbatim>\<open>forward\<close> succeed on a packed input of shape \<open>[B, 1, K, 2, P]\<close>,
  \<open>P = C (C + 1) / 2\<close>.  Then the steps before the eigensolver have produced the whitened
  matrix \<open>csh\<close>, and the eigensolver has returned eigenvalues \<open>es\<close> for this matrix \<open>csh\<close>.
  If these eigenvalues have the shape \<open>[B, K, 2C]\<close> (one eigenvalue for each of the \<open>2C\<close>
  rows of \<open>csh\<close>), then the eigenvalue output \<open>ds\<close> has shape \<open>[B, K, C, C, 2]\<close>, its
  imaginary component is zero everywhere, its real component is zero off the diagonal, and
  its diagonal entry \<open>(i, i)\<close> is the eigenvalue \<open>es[2 i]\<close>, whatever the values of the
  eigenvalues.
\<close>

theorem forward_eigenvalue_matrix:
  assumes a: "has_shape5 a B 1 K 2 P" and P: "P = C * (C + 1) div 2"
    and run: "forward la a b = Inr (vs, ds)"
  shows "\<exists>csh lsh_inv_T es ysh.
    whitened la a b = Inr (csh, lsh_inv_T) \<and> symeig la csh = Inr (es, ysh) \<and>
    (has_shape3 es B K (2 * C) \<longrightarrow>
       has_shape5 ds B K C C 2 \<and>
       (\<forall>bi<B. \<forall>k<K. \<forall>i<C. \<forall>j<C.
          entries ds ! bi ! k ! i ! j ! 1 = 0 \<and>
          entries ds ! bi ! k ! i ! j ! 0 = (if i = j then entries es ! bi ! k ! (2 * i) else 0)))"
proof -
  have sh: "shape a = [B, 1, K, 2, P]" using a by (simp add: has_shape5_def)
  have nc: "n_channels_of P = C" unfolding P by (rule n_channels_triangular)
  have p: "shape a ! 0 = B" "shape a ! 2 = K" "shape a ! 4 = P" by (simp_all add: sh)
  from run obtain csh lsh_inv_T es ysh dsh where wh: "whitened la a b = Inr (csh, lsh_inv_T)"
    and se: "symeig la csh = Inr (es, ysh)"
    and ip: "index_put [0..<2 * C] [0..<2 * C] (zeros4 B K (2 * C) (2 * C)) es = Inr dsh"
    and gd: "ginv dsh = Inr ds"
    unfolding forward_whitened p nc
    by (auto elim!: bind_InrE split: prod.splits)
  let ?N = "2 * C"
  let ?X = "entries es"
  let ?d = "\<lambda>e. scatter [0..<?N] [0..<?N] (zero_mat ?N ?N) e"
  have main: "has_shape5 ds B K C C 2 \<and>
       (\<forall>bi<B. \<forall>k<K. \<forall>i<C. \<forall>j<C.
          entries ds ! bi ! k ! i ! j ! 1 = 0 \<and>
          entries ds ! bi ! k ! i ! j ! 0 = (if i = j then entries es ! bi ! k ! (2 * i) else 0))"
    if eig: "has_shape3 es B K (2 * C)"
  proof -
    have es: "shape es = [B, K, ?N]" and X: "sized B (sized K (sized ?N scalar)) ?X"
      using eig by (auto simp: has_shape3_def)
    have z: "entries (zeros4 B K ?N ?N) = map (map (\<lambda>_. zero_mat ?N ?N)) ?X"
      using X by (simp add: zeros4_def zero_mat_def replicate_lift)
    have "index_put [0..<?N] [0..<?N] (zeros4 B K ?N ?N) es =
        Inr \<lparr>shape = [B, K, ?N, ?N], entries = map (map ?d) ?X\<rparr>"
      using es z by (intro index_put_lift [OF X]) (simp_all add: zeros4_def sized_def)
    with ip have dsh: "dsh = \<lparr>shape = [B, K, ?N, ?N], entries = map (map ?d) ?X\<rparr>" by simp
    have wf: "has_shape4 dsh B K ?N ?N"
      using X unfolding dsh
      by (auto simp: has_shape4_def sized_map scatter_diag_sized elim!: sized_mono)
    from gd ginv_lift [OF wf]
    have ds: "ds = \<lparr>shape = [B, K, C, C, 2], entries = map (map (\<lambda>e. ginv_bin (?d e))) ?X\<rparr>"
      by (simp add: dsh comp_def)
    have ent: "ginv_bin (?d e) ! i ! j = [if i = j then e ! (2 * i) else 0, 0]"
      if "length e = ?N" "i < C" "j < C" for e i j
      using that by (simp add: ginv_bin_entries [of _ C] scatter_diag)
    have item: "entries ds ! bi ! k = ginv_bin (?d (?X ! bi ! k))" "length (?X ! bi ! k) = ?N"
      if "bi < B" "k < K" for bi k
    proof -
      from X that have lb: "length ?X = B" "length (?X ! bi) = K"
        by (auto simp: sized_def list_all_length)
      with that show "entries ds ! bi ! k = ginv_bin (?d (?X ! bi ! k))" by (simp add: ds)
      from X that show "length (?X ! bi ! k) = ?N" by (auto simp: sized_def list_all_length)
    qed
    have shape_ds: "has_shape5 ds B K C C 2"
    proof -
      have "sized C (sized C (sized 2 scalar)) (ginv_bin (?d e))" if "length e = ?N" for e
        using that ent [OF that]
        by (auto simp: sized_def list_all_length scalar_def ginv_bin_def Let_def slice_get_def
            length_strided)
      with X show ?thesis unfolding ds
        by (auto simp: has_shape5_def sized_map sized_def list_all_iff)
    qed
    have "\<forall>bi<B. \<forall>k<K. \<forall>i<C. \<forall>j<C.
         entries ds ! bi ! k ! i ! j ! 1 = 0 \<and>
         entries ds ! bi ! k ! i ! j ! 0 = (if i = j then entries es ! bi ! k ! (2 * i) else 0)"
      by (simp add: item ent)
    with shape_ds show ?thesis by (rule conjI)
  qed
  show ?thesis
    apply (rule exI [of _ csh], rule exI [of _ lsh_inv_T], rule exI [of _ es], rule exI [of _ ysh])
    apply (rule conjI, rule wh, rule conjI, rule se, rule impI)
    apply (erule main)
    done
qed

theorem forward_eigenvalue_matrix_witness:
  "has_shape5 \<lparr>shape = [1, 1, 1, 2, 3], entries = [[[[[3, 0, 5], [0, 0, 0]]]]]\<rparr> 1 1 1 2 3 \<and>
   (3::nat) = 2 * (2 + 1) div 2 \<and>
   forward diagonal_linalg \<lparr>shape = [1, 1, 1, 2, 3], entries = [[[[[3, 0, 5], [0, 0, 0]]]]]\<rparr> None =
     Inr (\<lparr>shape = [1, 1, 2, 2, 2], entries = [[[[[1, 0], [0, 0]], [[0, 0], [1, 0]]]]]\<rparr>,
          \<lparr>shape = [1, 1, 2, 2, 2], entries = [[[[[3, 0], [0, 0]], [[0, 0], [5, 0]]]]]\<rparr>) \<and>
   (\<exists>csh lsh_inv_T es ysh.
      whitened diagonal_linalg
        \<lparr>shape = [1, 1, 1, 2, 3], entries = [[[[[3, 0, 5], [0, 0, 0]]]]]\<rparr> None =
        Inr (csh, lsh_inv_T) \<and>
      csh = \<lparr>shape = [1, 1, 4, 4],
              entries = [[[[3, 0, 0, 0], [0, 3, 0, 0], [0, 0, 5, 0], [0, 0, 0, 5]]]]\<rparr> \<and>
      symeig diagonal_linalg csh = Inr (es, ysh) \<and>
      es = \<lparr>shape = [1, 1, 4], entries = [[[3, 3, 5, 5]]]\<rparr> \<and>
      has_shape3 es 1 1 (2 * 2) \<and>
      has_shape5 \<lparr>shape = [1, 1, 2, 2, 2],
                  entries = [[[[[3, 0], [0, 0]], [[0, 0], [5 :: real, 0]]]]]\<rparr> 1 1 2 2 2 \<and>
      entries \<lparr>shape = [1, 1, 2, 2, 2],
               entries = [[[[[3, 0], [0, 0]], [[0, 0], [5 :: real, 0]]]]]\<rparr> ! 0 ! 0 ! 0 ! 1 ! 0 = 0 \<and>
      entries \<lparr>shape = [1, 1, 2, 2, 2],
               entries = [[[[[3, 0], [0, 0]], [[0, 0], [5 :: real, 0]]]]]\<rparr> ! 0 ! 0 ! 0 ! 1 ! 1 = 0 \<and>
      entries \<lparr>shape = [1, 1, 2, 2, 2],
               entries = [[[[[3, 0], [0, 0]], [[0, 0], [5 :: real, 0]]]]]\<rparr> ! 0 ! 0 ! 1 ! 1 ! 0 =
        entries es ! 0 ! 0 ! (2 * 1))"
proof -
  let ?a = "\<lparr>shape = [1, 1, 1, 2, 3], entries = [[[[[3, 0, 5], [0, 0, 0 :: real]]]]]\<rparr>"
  let ?vs = "\<lparr>shape = [1, 1, 2, 2, 2], entries = [[[[[1, 0], [0, 0]], [[0, 0], [1, 0 :: real]]]]]\<rparr>"
  let ?ds = "\<lparr>shape = [1, 1, 2, 2, 2], entries = [[[[[3, 0], [0, 0]], [[0, 0], [5, 0 :: real]]]]]\<rparr>"
  let ?csh = "\<lparr>shape = [1, 1, 4, 4],
              entries = [[[[3, 0, 0, 0], [0, 3, 0, 0], [0, 0, 5, 0], [0, 0, 0, 5 :: real]]]]\<rparr>"
  let ?id = "\<lparr>shape = [1, 1, 4, 4],
              entries = [[[[1, 0, 0, 0], [0, 1, 0, 0], [0, 0, 1, 0], [0, 0, 0, 1 :: real]]]]\<rparr>"
  let ?es = "\<lparr>shape = [1, 1, 4], entries = [[[3, 3, 5, 5 :: real]]]\<rparr>"
  have h: "has_shape5 ?a 1 1 1 2 3"
    by (simp add: has_shape5_def sized_def scalar_def)
  have p: "(3::nat) = 2 * (2 + 1) div 2" by simp
  have run: "forward diagonal_linalg ?a None = Inr (?vs, ?ds)"
    by code_simp
  have wh: "whitened diagonal_linalg ?a None = Inr (?csh, ?id)"
    by code_simp
  have se: "symeig diagonal_linalg ?csh = Inr (?es, ?id)"
    by code_simp
  have hs: "has_shape3 ?es 1 1 (2 * 2)"
    by (simp add: has_shape3_def sized_def scalar_def)
  from forward_eigenvalue_matrix [OF h p run]
  obtain csh lsh_inv_T es ysh where
    w: "whitened diagonal_linalg ?a None = Inr (csh, lsh_inv_T)" and
    s: "symeig diagonal_linalg csh = Inr (es, ysh)" and
    r: "has_shape3 es 1 1 (2 * 2) \<longrightarrow>
       has_shape5 ?ds 1 1 2 2 2 \<and>
       (\<forall>bi<1. \<forall>k<1. \<forall>i<2. \<forall>j<2.
          entries ?ds ! bi ! k ! i ! j ! 1 = 0 \<and>
          entries ?ds ! bi ! k ! i ! j ! 0 = (if i = j then entries es ! bi ! k ! (2 * i) else 0))"
    by (elim exE conjE)
  from w wh have c: "csh = ?csh" by simp
  from s se c have e: "es = ?es" by simp
  from r hs e have r1: "has_shape5 ?ds 1 1 2 2 2" and
    r2: "\<forall>bi<1. \<forall>k<1. \<forall>i<2. \<forall>j<2.
          entries ?ds ! bi ! k ! i ! j ! 1 = 0 \<and>
          entries ?ds ! bi ! k ! i ! j ! 0 = (if i = j then entries es ! bi ! k ! (2 * i) else 0)"
    by simp_all
  have q01: "entries ?ds ! 0 ! 0 ! 0 ! 1 ! 1 = 0 \<and>
      entries ?ds ! 0 ! 0 ! 0 ! 1 ! 0 = (if (0::nat) = 1 then entries es ! 0 ! 0 ! (2 * 0) else 0)"
    by (rule r2 [rule_format, of 0 0 0 1]) simp_all
  have q11: "entries ?ds ! 0 ! 0 ! 1 ! 1 ! 1 = 0 \<and>
      entries ?ds ! 0 ! 0 ! 1 ! 1 ! 0 = (if (1::nat) = 1 then entries es ! 0 ! 0 ! (2 * 1) else 0)"
    by (rule r2 [rule_format, of 0 0 1 1]) simp_all
  have ex: "\<exists>csh lsh_inv_T es ysh.
      whitened diagonal_linalg ?a None = Inr (csh, lsh_inv_T) \<and> csh = ?csh \<and>
      symeig diagonal_linalg csh = Inr (es, ysh) \<and> es = ?es \<and> has_shape3 es 1 1 (2 * 2) \<and>
      has_shape5 ?ds 1 1 2 2 2 \<and>
      entries ?ds ! 0 ! 0 ! 0 ! 1 ! 0 = 0 \<and>
      entries ?ds ! 0 ! 0 ! 0 ! 1 ! 1 = 0 \<and>
      entries ?ds ! 0 ! 0 ! 1 ! 1 ! 0 = entries es ! 0 ! 0 ! (2 * 1)"
    apply (rule exI [of _ csh], rule exI [of _ lsh_inv_T], rule exI [of _ es], rule exI [of _ ysh])
    using w c s e hs r1 q01 q11 by simp
  from h p run ex show ?thesis by (intro conjI)
qed

subsection \<open>The regulariser\<close>

lemma diag_mask_eq:
  "map2 (\<lambda>i j. i = j) (map fst ps) (map snd ps) = map (\<lambda>(i, j). i = j) ps"
  by (induction ps) auto

lemma count_diag_le: "r \<le> c \<Longrightarrow> length (filter (\<lambda>(i, j). i = j) (triu_pairs r c)) = r"
proof (induction r)
  case 0
  show ?case by (simp add: triu_pairs_def)
next
  case (Suc r)
  then have r: "r < c" by simp
  have "filter (\<lambda>(i, j). i = j) (map (Pair r) [r..<c]) = [(r, r)]"
  proof -
    have "[r..<c] = r # [Suc r..<c]" using r by (simp add: upt_conv_Cons)
    moreover have "filter (\<lambda>(i, j). i = j) (map (Pair r) [Suc r..<c]) = []"
      by (auto simp: filter_empty_conv)
    ultimately show ?thesis by simp
  qed
  with Suc show ?case by (simp add: triu_pairs_Suc)
qed

lemma count_true_diag: "count_true (map (\<lambda>(i, j). i = j) (triu_pairs n n)) = n"
proof -
  have "filter (\<lambda>m. m) (map (\<lambda>(i, j). i = j) ps) = map (\<lambda>(i, j). i = j) (filter (\<lambda>(i, j). i = j) ps)"
    for ps :: "(nat \<times> nat) list"
    by (induction ps) auto
  then show ?thesis by (simp add: count_true_def count_diag_le)
qed

lemma select_mask_diag:
  "select_mask (map (\<lambda>(i, j). i = j) ps) re =
   map snd (filter (\<lambda>((i, j), x). i = j) (zip ps re))"
proof (induction ps arbitrary: re)
  case Nil
  show ?case by (simp add: select_mask_def)
next
  case (Cons q ps)
  show ?case
  proof (cases re)
    case Nil
    then show ?thesis by (simp add: select_mask_def)
  next
    case (Cons x xs)
    with Cons.IH [of xs] show ?thesis
      by (cases q) (simp add: select_mask_def)
  qed
qed

lemma add_mask_replicate:
  "length msk = length xs \<Longrightarrow> count_true msk \<le> n \<Longrightarrow>
   add_mask add msk xs (replicate n v) = map2 (\<lambda>m x. if m then add x v else x) msk xs"
proof (induction msk arbitrary: xs n)
  case Nil
  then show ?case by simp
next
  case (Cons m msk)
  then obtain x xs' where xs: "xs = x # xs'" by (cases xs) auto
  with Cons.prems have len: "length msk = length xs'" by simp
  show ?case
  proof (cases m)
    case True
    with Cons.prems obtain n' where n: "n = Suc n'" "count_true msk \<le> n'"
      by (cases n) (auto simp: count_true_def)
    from Cons.IH [OF len n(2)] True xs n(1) show ?thesis by simp
  next
    case False
    with Cons.prems have "count_true msk \<le> n" by (simp add: count_true_def)
    from Cons.IH [OF len this] False xs show ?thesis by simp
  qed
qed

lemma add_mask_diag:
  assumes "length re = length (triu_pairs n n)"
  shows "add_mask add (map (\<lambda>(i, j). i = j) (triu_pairs n n)) re (replicate n v) =
    map (\<lambda>((i, j), x). if i = j then add x v else x) (zip (triu_pairs n n) re)"
proof -
  have "add_mask add (map (\<lambda>(i, j). i = j) (triu_pairs n n)) re (replicate n v) =
      map2 (\<lambda>m x. if m then add x v else x) (map (\<lambda>(i, j). i = j) (triu_pairs n n)) re"
    using assms by (intro add_mask_replicate) (simp_all add: count_true_diag)
  also have "\<dots> = map (\<lambda>((i, j), x). if i = j then add x v else x) (zip (triu_pairs n n) re)"
    by (simp add: zip_map1 case_prod_unfold)
  finally show ?thesis .
qed

lemma map2_lift3:
  "map2 (map2 (map2 F)) X (map (map (map u)) X) = map (map (map (\<lambda>x. F x (u x)))) X"
  by (simp add: zip_map2 zip_same_conv_map)

lemma pos_def_result:
  assumes ws: "ws < length h" and a: "has_shape5 (h ! ws) B 1 K 2 P" and P: "P = C * (C + 1) div 2"
  shows "pos_def ar h ws alpha eps =
    Inr (h @ [\<lparr>shape = [B, 1, K, 2, P],
               entries = map (map (map (\<lambda>x. x[0 :=
                 map (\<lambda>((i, j), r). if i = j then add_entry ar r (add_scalar ar (mul_scalar ar alpha (sum_entries ar (packed_diagonal C (x ! 0)))) eps) else r)
                   (zip (triu_pairs C C) (x ! 0))]))) (entries (h ! ws))\<rparr>], length h)"
proof -
  let ?Q = "sized 2 (sized P scalar)"
  let ?X = "entries (h ! ws)"
  define msk where "msk = map (\<lambda>(i, j). i = j) (triu_pairs C C)"
  define tr where "tr = (\<lambda>x :: real list list. sum_entries ar (select_mask msk (x ! 0)))"
  have sh: "shape (h ! ws) = [B, 1, K, 2, P]" and X: "sized B (sized 1 (sized K ?Q)) ?X"
    using a by (auto simp: has_shape5_def)
  have nc: "n_channels_of P = C" unfolding P by (rule n_channels_triangular)
  have T: "length (triu_pairs C C) = P" by (simp add: length_triu_pairs P)
  have lm: "length msk = P" by (simp add: msk_def T)
  have cm: "count_true msk = C" by (simp add: msk_def count_true_diag)
  have p: "shape (h ! ws) ! 4 = P" by (simp add: sh)
  have mk: "map2 (\<lambda>i j. i = j) (fst (triu_indices C C)) (snd (triu_indices C C)) = msk"
    by (simp only: triu_indices_def fst_conv snd_conv diag_mask_eq msk_def)
  have sel: "masked_select0 (h ! ws) msk =
      Inr \<lparr>shape = [B, 1, K, C], entries = map (map (map (\<lambda>x. select_mask msk (x ! 0)))) ?X\<rparr>"
    by (simp add: masked_select0_def sh lm cm)
  have val: "scale_shift ar alpha eps (unsqueeze_repeat C (sum3 ar
      \<lparr>shape = [B, 1, K, C], entries = map (map (map (\<lambda>x. select_mask msk (x ! 0)))) ?X\<rparr>)) =
      \<lparr>shape = [B, 1, K, C], entries = map (map (map (\<lambda>x. replicate C (add_scalar ar (mul_scalar ar alpha (tr x)) eps)))) ?X\<rparr>"
    by (simp add: scale_shift_def unsqueeze_repeat_def sum3_def tr_def comp_def)
  have cl: "clone h ws = (h @ [h ! ws], length h)" by (simp add: clone_def)
  have "sized B (sized 1 (sized K (sized C scalar)))
      (map (map (map (\<lambda>x. replicate C (add_scalar ar (mul_scalar ar alpha (tr x)) eps)))) ?X)"
    using X by (auto simp: sized_def list_all_iff scalar_def)
  then have st: "stretch4 B 1 K C (map (map (map (\<lambda>x. replicate C (add_scalar ar (mul_scalar ar alpha (tr x)) eps)))) ?X) =
      map (map (map (\<lambda>x. replicate C (add_scalar ar (mul_scalar ar alpha (tr x)) eps)))) ?X"
    by (rule stretch4_id)
  have add: "masked_add0 ar (h @ [h ! ws]) (length h) msk
      \<lparr>shape = [B, 1, K, C], entries = map (map (map (\<lambda>x. replicate C (add_scalar ar (mul_scalar ar alpha (tr x)) eps)))) ?X\<rparr> =
      Inr (h @ [\<lparr>shape = [B, 1, K, 2, P],
        entries = map (map (map (\<lambda>x. x[0 := add_mask (add_entry ar) msk (x ! 0) (replicate C (add_scalar ar (mul_scalar ar alpha (tr x)) eps))]))) ?X\<rparr>])"
    using st by (simp add: masked_add0_def Let_def sh lm cm map2_lift3 tensor_upd_eq)
  have item: "x[0 := add_mask (add_entry ar) msk (x ! 0) (replicate C (add_scalar ar (mul_scalar ar alpha (tr x)) eps))] =
      x[0 := map (\<lambda>((i, j), r). if i = j then add_entry ar r (add_scalar ar (mul_scalar ar alpha (sum_entries ar (packed_diagonal C (x ! 0)))) eps) else r)
                   (zip (triu_pairs C C) (x ! 0))]" if "?Q x" for x
  proof -
    have l0: "length (x ! 0) = length (triu_pairs C C)"
      using packed_item(1) [OF that] T by simp
    have "tr x = sum_entries ar (packed_diagonal C (x ! 0))"
      by (simp add: tr_def msk_def packed_diagonal_def select_mask_diag)
    with add_mask_diag [OF l0] show ?thesis by (simp add: msk_def)
  qed
  have ents: "map (map (map (\<lambda>x. x[0 := add_mask (add_entry ar) msk (x ! 0) (replicate C (add_scalar ar (mul_scalar ar alpha (tr x)) eps))]))) ?X =
      map (map (map (\<lambda>x. x[0 :=
                 map (\<lambda>((i, j), r). if i = j then add_entry ar r (add_scalar ar (mul_scalar ar alpha (sum_entries ar (packed_diagonal C (x ! 0)))) eps) else r)
                   (zip (triu_pairs C C) (x ! 0))]))) ?X"
    using X by (intro map_cong refl item) (auto simp: sized_def list_all_iff)
  show ?thesis
    unfolding pos_def_def Let_def p nc mk
    using sel val cl add ents by (simp add: bind_def)
qed

lemma packed_entry:
  assumes a: "has_shape5 a B 1 K 2 P" and b: "b < B" and k: "k < K"
  shows "map (map (map u)) (entries a) ! b ! 0 ! k = u (entries a ! b ! 0 ! k)"
proof -
  let ?Q = "sized 2 (sized P scalar)"
  have E: "sized B (sized 1 (sized K ?Q)) (entries a)"
    using a by (auto simp: has_shape5_def)
  then have "entries a ! b \<in> set (entries a)" using b by (simp add: sized_def)
  with E have e: "sized 1 (sized K ?Q) (entries a ! b)" by (auto simp: sized_def list_all_iff)
  then obtain xb where xb: "entries a ! b = [xb]" by (cases "entries a ! b") (auto simp: sized_def)
  with e have "sized K ?Q xb" by (simp add: sized_def)
  then show ?thesis using E b k xb by (simp add: sized_def)
qed

text \<open>
  C8.  Let the store hold at position \<open>ws\<close> a packed array of shape \<open>[B, 1, K, 2, P]\<close>,
  \<open>P = C (C + 1) / 2\<close>.  Then \<^verbatim>\<open>pos_def\<close> succeeds; the returned array is a new one (at
  the first free position of the store), every array that was in the store, \<open>ws\<close> among
  them, is unchanged; the returned array has the shape of \<open>ws\<close>, its imaginary entries
  and its real entries off the diagonal positions are those of \<open>ws\<close>, and its real entry
  at a diagonal position \<open>p\<close> (index pair \<open>i = j\<close>) is that of \<open>ws\<close> with
  \<open>alpha * trace + eps\<close> added, the trace being the sum of the real diagonal entries of
  \<open>ws\<close> for the same batch item and bin.  The sum, the product and the two additions are
  the operations of the array's floating-point arithmetic, whatever they round to.
\<close>

theorem pos_def_frame:
  assumes ws: "ws < length h" and a: "has_shape5 (h ! ws) B 1 K 2 P" and P: "P = C * (C + 1) div 2"
  shows "\<exists>h' r. pos_def ar h ws alpha eps = Inr (h', r) \<and> r = length h \<and>
    length h' = Suc (length h) \<and> (\<forall>q<length h. h' ! q = h ! q) \<and>
    has_shape5 (h' ! r) B 1 K 2 P \<and>
    (\<forall>b<B. \<forall>k<K. \<forall>p<P.
       entries (h' ! r) ! b ! 0 ! k ! 1 ! p = entries (h ! ws) ! b ! 0 ! k ! 1 ! p \<and>
       entries (h' ! r) ! b ! 0 ! k ! 0 ! p =
         (if fst (triu_pairs C C ! p) = snd (triu_pairs C C ! p)
          then add_entry ar (entries (h ! ws) ! b ! 0 ! k ! 0 ! p)
                 (add_scalar ar
                    (mul_scalar ar alpha
                       (sum_entries ar (packed_diagonal C (entries (h ! ws) ! b ! 0 ! k ! 0))))
                    eps)
          else entries (h ! ws) ! b ! 0 ! k ! 0 ! p))"
proof -
  let ?Q = "sized 2 (sized P scalar)"
  let ?X = "entries (h ! ws)"
  let ?v = "\<lambda>re. add_scalar ar (mul_scalar ar alpha (sum_entries ar (packed_diagonal C re))) eps"
  let ?u = "\<lambda>x. x[0 :=
     map (\<lambda>((i, j), r). if i = j then add_entry ar r (?v (x ! 0)) else r)
       (zip (triu_pairs C C) (x ! 0))]"
  let ?out = "\<lparr>shape = [B, 1, K, 2, P], entries = map (map (map ?u)) ?X\<rparr>"
  let ?h' = "h @ [?out]"
  have X: "sized B (sized 1 (sized K ?Q)) ?X"
    using a by (auto simp: has_shape5_def)
  have T: "length (triu_pairs C C) = P" by (simp add: length_triu_pairs P)
  have res: "pos_def ar h ws alpha eps = Inr (?h', length h)"
    by (rule pos_def_result [OF ws a P])
  have old: "\<forall>q<length h. ?h' ! q = h ! q" by (simp add: nth_append)
  have new: "?h' ! length h = ?out" by simp
  have uQ: "?Q (?u x)" if "?Q x" for x
  proof -
    note pi = packed_item [OF that]
    have "?u x = [map (\<lambda>((i, j), r). if i = j then add_entry ar r (?v (x ! 0)) else r)
       (zip (triu_pairs C C) (x ! 0)), x ! 1]"
      by (subst (1) pi(3)) simp
    then show ?thesis using pi(1,2) T by (simp add: sized_def scalar_def list_all_iff)
  qed
  have wf: "has_shape5 ?out B 1 K 2 P"
    using X uQ by (auto simp: has_shape5_def sized_map elim!: sized_mono)
  have ent: "entries ?out ! b ! 0 ! k ! 1 ! p = ?X ! b ! 0 ! k ! 1 ! p \<and>
       entries ?out ! b ! 0 ! k ! 0 ! p =
         (if fst (triu_pairs C C ! p) = snd (triu_pairs C C ! p)
          then add_entry ar (?X ! b ! 0 ! k ! 0 ! p) (?v (?X ! b ! 0 ! k ! 0))
          else ?X ! b ! 0 ! k ! 0 ! p)"
    if b: "b < B" and k: "k < K" and p: "p < P" for b k p
  proof -
    let ?x = "?X ! b ! 0 ! k"
    have e: "entries ?out ! b ! 0 ! k = ?u ?x"
      using packed_entry [OF a b k, of ?u] by simp
    note pi = packed_item [OF f_entry(2) [OF a b k]]
    have "?u ?x ! 1 = ?x ! 1" by simp
    moreover have "?u ?x ! 0 ! p =
         (if fst (triu_pairs C C ! p) = snd (triu_pairs C C ! p)
          then add_entry ar (?x ! 0 ! p) (?v (?x ! 0)) else ?x ! 0 ! p)"
    proof -
      have "length ?x = 2" using pi(3) by (metis length_Cons list.size(3) numeral_2_eq_2)
      then have "?u ?x ! 0 = map (\<lambda>((i, j), r). if i = j then add_entry ar r (?v (?x ! 0)) else r)
       (zip (triu_pairs C C) (?x ! 0))" by simp
      then show ?thesis using p pi(1) T by (simp add: case_prod_unfold)
    qed
    ultimately show ?thesis using e by simp
  qed
  have "pos_def ar h ws alpha eps = Inr (?h', length h) \<and> length h = length h \<and>
    length ?h' = Suc (length h) \<and> (\<forall>q<length h. ?h' ! q = h ! q) \<and>
    has_shape5 (?h' ! length h) B 1 K 2 P \<and>
    (\<forall>b<B. \<forall>k<K. \<forall>p<P.
       entries (?h' ! length h) ! b ! 0 ! k ! 1 ! p = ?X ! b ! 0 ! k ! 1 ! p \<and>
       entries (?h' ! length h) ! b ! 0 ! k ! 0 ! p =
         (if fst (triu_pairs C C ! p) = snd (triu_pairs C C ! p)
          then add_entry ar (?X ! b ! 0 ! k ! 0 ! p) (?v (?X ! b ! 0 ! k ! 0))
          else ?X ! b ! 0 ! k ! 0 ! p))"
    unfolding new using res old wf ent by simp
  then show ?thesis by blast
qed

theorem pos_def_frame_witness:
  "(0::nat) < length [\<lparr>shape = [1, 1, 1, 2, 3], entries = [[[[[1, 2, 3], [0, 5, 0 :: real]]]]]\<rparr>] \<and>
   has_shape5 ([\<lparr>shape = [1, 1, 1, 2, 3], entries = [[[[[1, 2, 3], [0, 5, 0]]]]]\<rparr>] ! 0) 1 1 1 2 3 \<and>
   (3::nat) = 2 * (2 + 1) div 2 \<and>
   (\<exists>h' r. pos_def absorbing_arith
        [\<lparr>shape = [1, 1, 1, 2, 3], entries = [[[[[1, 2, 3], [0, 5, 0]]]]]\<rparr>] 0
        (1 / 1000) (1 / 10 ^ 20) = Inr (h', r) \<and> r = 1 \<and>
      h' ! 0 = \<lparr>shape = [1, 1, 1, 2, 3], entries = [[[[[1, 2, 3], [0, 5, 0]]]]]\<rparr> \<and>
      entries (h' ! r) ! 0 ! 0 ! 0 ! 0 ! 0 = 251 / 250 \<and>
      entries (h' ! r) ! 0 ! 0 ! 0 ! 0 ! 1 = 2 \<and>
      entries (h' ! r) ! 0 ! 0 ! 0 ! 0 ! 2 = 751 / 250 \<and>
      entries (h' ! r) ! 0 ! 0 ! 0 ! 1 ! 1 = 5)"
proof -
  let ?a = "\<lparr>shape = [1, 1, 1, 2, 3], entries = [[[[[1, 2, 3], [0, 5, 0 :: real]]]]]\<rparr>"
  have ws: "(0::nat) < length [?a]" by simp
  have h: "has_shape5 ([?a] ! 0) 1 1 1 2 3"
    by (simp add: has_shape5_def sized_def scalar_def)
  have p: "(3::nat) = 2 * (2 + 1) div 2" by simp
  have t0: "triu_pairs 2 2 ! 0 = (0, 0)" and t1: "triu_pairs 2 2 ! 1 = (0, 1)"
    and t2: "triu_pairs 2 2 ! 2 = (1, 1)" by code_simp+
  have tr: "packed_diagonal 2 [1, 2, 3] = [1, 3]" by code_simp
  from pos_def_frame [OF ws h p, of absorbing_arith "1 / 1000" "1 / 10 ^ 20"]
  obtain h' r where res: "pos_def absorbing_arith [?a] 0 (1 / 1000) (1 / 10 ^ 20) = Inr (h', r)"
    and r: "r = length [?a]"
    and old: "\<forall>q<length [?a]. h' ! q = [?a] ! q"
    and ent: "\<forall>b<1. \<forall>k<1. \<forall>p<3.
       entries (h' ! r) ! b ! 0 ! k ! 1 ! p = entries ([?a] ! 0) ! b ! 0 ! k ! 1 ! p \<and>
       entries (h' ! r) ! b ! 0 ! k ! 0 ! p =
         (if fst (triu_pairs 2 2 ! p) = snd (triu_pairs 2 2 ! p)
          then add_entry absorbing_arith (entries ([?a] ! 0) ! b ! 0 ! k ! 0 ! p)
                 (add_scalar absorbing_arith
                    (mul_scalar absorbing_arith (1 / 1000)
                       (sum_entries absorbing_arith
                          (packed_diagonal 2 (entries ([?a] ! 0) ! b ! 0 ! k ! 0))))
                    (1 / 10 ^ 20))
          else entries ([?a] ! 0) ! b ! 0 ! k ! 0 ! p)"
    by (elim exE conjE) simp
  have r1: "r = 1" using r by simp
  have o: "h' ! 0 = ?a" using old by simp
  have e0: "entries (h' ! r) ! 0 ! 0 ! 0 ! 0 ! 0 = 251 / 250"
    using ent [rule_format, of 0 0 0] t0 tr
    by (simp add: absorbing_arith_def absorbing_add_def)
  have e1: "entries (h' ! r) ! 0 ! 0 ! 0 ! 0 ! 1 = 2"
    using ent [rule_format, of 0 0 1] t1 by simp
  have e2: "entries (h' ! r) ! 0 ! 0 ! 0 ! 0 ! 2 = 751 / 250"
    using ent [rule_format, of 0 0 2] t2 tr
    by (simp add: absorbing_arith_def absorbing_add_def)
  have e3: "entries (h' ! r) ! 0 ! 0 ! 0 ! 1 ! 1 = 5"
    using ent [rule_format, of 0 0 1] by simp
  from res r1 o e0 e1 e2 e3
  have "\<exists>h' r. pos_def absorbing_arith [?a] 0 (1 / 1000) (1 / 10 ^ 20) = Inr (h', r) \<and> r = 1 \<and>
      h' ! 0 = ?a \<and>
      entries (h' ! r) ! 0 ! 0 ! 0 ! 0 ! 0 = 251 / 250 \<and>
      entries (h' ! r) ! 0 ! 0 ! 0 ! 0 ! 1 = 2 \<and>
      entries (h' ! r) ! 0 ! 0 ! 0 ! 0 ! 2 = 751 / 250 \<and>
      entries (h' ! r) ! 0 ! 0 ! 0 ! 1 ! 1 = 5"
    by (intro exI [of _ h'] exI [of _ r] conjI)
  with ws h p show ?thesis by (intro conjI)
qed


subsection \<open>The notch filter\<close>

lemma arange_length: "arange n = Inr ar \<Longrightarrow> length ar = nat n"
  by (auto simp: arange_def split: if_splits)

lemma length_sinc: "pad < length x \<Longrightarrow> length (sinc pad x) = length x"
  by (simp add: sinc_def)

lemma length_blackman_window: "length (blackman_window n) = n"
  by (simp add: blackman_window_def)

lemma notch_filter_asserts:
  "notch_filter nf fw nw = Inl AssertionError \<longleftrightarrow> even fw \<or> \<not> (0 < nf \<and> nf \<le> 1)"
  by (auto simp: notch_filter_def Let_def bind_def arange_def even_iff_mod_2_eq_zero)

lemma notch_filter_negative:
  assumes "odd fw" "0 < nf" "nf \<le> 1" "fw < 0"
  shows "notch_filter nf fw nw = Inl RangeError"
  using assms by (simp add: notch_filter_def Let_def bind_def arange_def even_iff_mod_2_eq_zero)

lemma notch_filter_returns:
  assumes "odd fw" "0 < nf" "nf \<le> 1" "0 < fw"
  shows "\<exists>k. notch_filter nf fw nw = Inr k \<and> has_shape3 k 1 (nat fw) 1"
proof -
  have pad: "nat (fw div 2) < nat fw" using assms(4) by linarith
  have len: "length (map (\<lambda>i. real_of_int (i - fw div 2)) (map int [0..<nat fw])) = nat fw" by simp
  show ?thesis
    using assms pad
    by (simp add: notch_filter_def Let_def bind_def arange_def even_iff_mod_2_eq_zero
        has_shape3_def sized_def list_all_iff scalar_def length_sinc length_blackman_window)
qed

text \<open>
  C7, as the code has it.  \<^verbatim>\<open>notch_filter\<close> fails with an assertion error if and only if
  \<open>filter_width\<close> is even or \<open>notch_freq\<close> is outside \<open>(0, 1]\<close>.  For an odd, positive
  \<open>filter_width\<close> and \<open>notch_freq\<close> in \<open>(0, 1]\<close> it returns a kernel of shape
  \<open>(1, filter_width, 1)\<close>.  An odd, negative \<open>filter_width\<close> passes both assertions, and
  \<^verbatim>\<open>torch.arange(filter_width)\<close> raises.
\<close>

theorem notch_filter_errors:
  "(notch_filter nf fw nw = Inl AssertionError \<longleftrightarrow> even fw \<or> \<not> (0 < nf \<and> nf \<le> 1)) \<and>
   (odd fw \<and> 0 < nf \<and> nf \<le> 1 \<and> 0 < fw \<longrightarrow>
      (\<exists>k. notch_filter nf fw nw = Inr k \<and> has_shape3 k 1 (nat fw) 1)) \<and>
   (odd fw \<and> 0 < nf \<and> nf \<le> 1 \<and> fw < 0 \<longrightarrow> notch_filter nf fw nw = Inl RangeError)"
  using notch_filter_asserts notch_filter_negative notch_filter_returns by blast

theorem notch_filter_errors_witness:
  "odd (3::int) \<and> (0::real) < 1 / 4 \<and> (1 / 4 :: real) \<le> 1 \<and> (0::int) < 3 \<and>
   (\<exists>k. notch_filter (1 / 4) 3 (1 / 20) = Inr k \<and> has_shape3 k 1 (nat 3) 1) \<and>
   notch_filter (1 / 4) 4 (1 / 20) = Inl AssertionError \<and>
   notch_filter 2 3 (1 / 20) = Inl AssertionError"
proof -
  have h: "odd (3::int) \<and> (0::real) < 1 / 4 \<and> (1 / 4 :: real) \<le> 1 \<and> (0::int) < 3" by simp
  note t = notch_filter_errors [of "1 / 4" 3 "1 / 20"]
  from t h have "\<exists>k. notch_filter (1 / 4) 3 (1 / 20) = Inr k \<and> has_shape3 k 1 (nat 3) 1"
    by blast
  moreover have "notch_filter (1 / 4) 4 (1 / 20) = Inl AssertionError"
    using notch_filter_errors [of "1 / 4" 4 "1 / 20"] by simp
  moreover have "notch_filter 2 3 (1 / 20) = Inl AssertionError"
    using notch_filter_errors [of 2 3 "1 / 20"] by simp
  ultimately show ?thesis using h by blast
qed

theorem notch_filter_negative_width_counterexample:
  "odd (- 1 :: int) \<and> (0::real) < 1 / 4 \<and> (1 / 4 :: real) \<le> 1 \<and>
   notch_filter (1 / 4) (- 1) (1 / 20) = Inl RangeError"
  by (simp add: notch_filter_def Let_def bind_def arange_def)

subsection \<open>Convolution\<close>

lemma fft_convolve_prims:
  "fft_convolve (pr\<lparr>pad_prim := pp, conv1d := cc\<rparr>) w k rot = fft_convolve pr w k rot"
  by (simp add: fft_convolve_def)

lemma convolve1d_dispatch:
  assumes "length (shape w) = 3" and "length (shape k) = 3"
  shows "convolve1d pr w k (PadInt n) pad_type stride groups True rot =
           bind (fft_convolve pr (transpose12 w) (transpose12 k) rot)
             (\<lambda>convolved. Inr (transpose12 convolved)) \<and>
         convolve1d pr w k (PadInt n) pad_type stride groups True rot =
           convolve1d (pr\<lparr>pad_prim := pp, conv1d := cc\<rparr>) w k (PadInt 0) pad_type' stride' groups'
             True rot \<and>
         convolve1d pr w k (PadTuple l r) pad_type stride groups True rot =
           bind (pad_prim pr (transpose12 w) (l, r) pad_type) (\<lambda>padded.
           bind (fft_convolve pr padded (transpose12 k) rot)
             (\<lambda>convolved. Inr (transpose12 convolved))) \<and>
         convolve1d pr w k (PadInt n) pad_type stride groups False rot =
           bind (conv1d pr (transpose12 w) (transpose12 k) stride groups n)
             (\<lambda>convolved. Inr (transpose12 convolved))"
  using assms by (simp add: convolve1d_def Let_def bind_def fft_convolve_prims)






















subsection \<open>The convolution theorem for the one-sided transform\<close>

lemma cis_int_2pi: "cis (2 * pi * real_of_int j) = 1"
  using cis_multiple_2pi [of "real_of_int j"] by (simp add: mult.commute)

lemma roots_sum:
  fixes d :: int and N :: nat
  assumes N: "0 < N"
  shows "(\<Sum>k<N. cis (2 * pi * real k * real_of_int d / real N)) =
         (if int N dvd d then of_nat N else 0)"
proof -
  define w where "w = cis (2 * pi * real_of_int d / real N)"
  have pw: "cis (2 * pi * real k * real_of_int d / real N) = w ^ k" for k
    unfolding w_def DeMoivre by (simp add: mult_ac)
  have wN: "w ^ N = 1"
  proof -
    have "w ^ N = cis (2 * pi * real_of_int d)"
      unfolding w_def DeMoivre using N by simp
    then show ?thesis by (simp add: cis_int_2pi)
  qed
  show ?thesis
  proof (cases "int N dvd d")
    case True
    then obtain j where j: "d = int N * j" by (auto simp: dvd_def)
    have "2 * pi * real_of_int d / real N = 2 * pi * real_of_int j"
      using N by (simp add: j)
    then have "w = 1" unfolding w_def by (simp only: cis_int_2pi)
    with True show ?thesis by (simp add: pw)
  next
    case False
    have "w \<noteq> 1"
    proof
      assume "w = 1"
      then have "cos (2 * pi * real_of_int d / real N) = 1"
        unfolding w_def by (metis cis.sel(1) one_complex.sel(1))
      then obtain j :: int where "2 * pi * real_of_int d / real N = real_of_int j * 2 * pi"
        unfolding cos_one_2pi_int by blast
      then have "real_of_int d = real_of_int j * real N"
        using N by (simp add: field_simps)
      then have "d = j * int N"
        by (metis of_int_eq_iff of_int_mult of_int_of_nat_eq)
      with False show False by simp
    qed
    then have "(\<Sum>k<N. w ^ k) = (w ^ N - 1) / (w - 1)" by (rule geometric_sum)
    with wN False show ?thesis by (simp add: pw)
  qed
qed


lemma sum_list_upt: "sum_list (map u [0..<N]) = (\<Sum>n<N. u n)"
  by (simp add: interv_sum_list_conv_sum_set_nat atLeast0LessThan)

lemma dft_bin_dft: "dft_bin x k = [Re (dft x k), Im (dft x k)]"
  by (simp add: dft_bin_def dft_def sum_list_upt sum_negf)

lemma dft_conj:
  assumes "k \<le> length x"
  shows "dft x (length x - k) = cnj (dft x k)"
proof -
  let ?N = "length x"
  have "cis (- (2 * pi * real (?N - k) * real n / real ?N)) =
        cnj (cis (- (2 * pi * real k * real n / real ?N)))" if "n < ?N" for n
  proof -
    have N: "0 < ?N" using that by (cases x) simp_all
    have "- (2 * pi * real (?N - k) * real n / real ?N) =
          2 * pi * real k * real n / real ?N + 2 * pi * real_of_int (- int n)"
      using assms N by (simp add: of_nat_diff field_simps)
    then have "cis (- (2 * pi * real (?N - k) * real n / real ?N)) =
        cis (2 * pi * real k * real n / real ?N) * cis (2 * pi * real_of_int (- int n))"
      by (simp only: cis_mult)
    then show ?thesis by (simp only: cis_int_2pi cis_cnj mult_1_right minus_minus)
  qed
  then show ?thesis by (simp add: dft_def cnj_sum)
qed


lemma shift_index:
  assumes "n < N" "m < N" "l < N"
  shows "int N dvd (int n - int m - int l) \<longleftrightarrow> l = (n + N - m) mod N"
proof -
  have "l = (n + N - m) mod N \<longleftrightarrow> (n + N - m) mod N = l mod N"
    using assms by auto
  also have "\<dots> \<longleftrightarrow> int (n + N - m) mod int N = int l mod int N"
    by (metis of_nat_mod of_nat_eq_iff)
  also have "\<dots> \<longleftrightarrow> int N dvd (int (n + N - m) - int l)"
    by (rule mod_eq_dvd_iff)
  also have "int (n + N - m) - int l = (int n - int m - int l) + int N"
    using assms by (simp add: of_nat_diff)
  also have "int N dvd (int n - int m - int l) + int N \<longleftrightarrow> int N dvd (int n - int m - int l)"
    by simp
  finally show ?thesis by simp
qed

lemma conv_sum:
  assumes len: "length h = length x" and n: "n < length x"
  shows "(\<Sum>k<length x. dft x k * dft h k * cis (2 * pi * real k * real n / real (length x))) =
         of_real (real (length x) * (\<Sum>m<length x. x ! m * h ! ((n + length x - m) mod length x)))"
proof -
  let ?N = "length x"
  have N: "0 < ?N" using n by (cases x) simp_all
  let ?d = "\<lambda>m l. int n - int m - int l"
  have tm: "dft x k * dft h k * cis (2 * pi * real k * real n / real ?N) =
      (\<Sum>m<?N. \<Sum>l<?N. of_real (x ! m * h ! l) *
         cis (2 * pi * real k * real_of_int (?d m l) / real ?N))" for k
  proof -
    have c: "cis (- (2 * pi * real k * real m / real ?N)) * cis (- (2 * pi * real k * real l / real ?N)) *
        cis (2 * pi * real k * real n / real ?N) =
        cis (2 * pi * real k * real_of_int (?d m l) / real ?N)" for m l
    proof -
      have "- (2 * pi * real k * real m / real ?N) + - (2 * pi * real k * real l / real ?N) +
          2 * pi * real k * real n / real ?N = 2 * pi * real k * real_of_int (?d m l) / real ?N"
        using N by (simp add: divide_simps) (simp add: algebra_simps)
      then show ?thesis by (simp only: cis_mult)
    qed
    have "dft x k * dft h k =
        (\<Sum>m<?N. \<Sum>l<?N. (of_real (x ! m) * cis (- (2 * pi * real k * real m / real ?N))) *
           (of_real (h ! l) * cis (- (2 * pi * real k * real l / real ?N))))"
      by (simp only: dft_def len sum_product)
    then have "dft x k * dft h k * cis (2 * pi * real k * real n / real ?N) =
        (\<Sum>m<?N. \<Sum>l<?N. (of_real (x ! m) * cis (- (2 * pi * real k * real m / real ?N))) *
           (of_real (h ! l) * cis (- (2 * pi * real k * real l / real ?N))) *
           cis (2 * pi * real k * real n / real ?N))"
      by (simp only: sum_distrib_right)
    also have "\<dots> = (\<Sum>m<?N. \<Sum>l<?N. of_real (x ! m * h ! l) *
         cis (2 * pi * real k * real_of_int (?d m l) / real ?N))"
    proof (intro sum.cong refl)
      fix m l
      have "(of_real (x ! m) * cis (- (2 * pi * real k * real m / real ?N))) *
           (of_real (h ! l) * cis (- (2 * pi * real k * real l / real ?N))) *
           cis (2 * pi * real k * real n / real ?N) =
           of_real (x ! m * h ! l) *
           (cis (- (2 * pi * real k * real m / real ?N)) * cis (- (2 * pi * real k * real l / real ?N)) *
            cis (2 * pi * real k * real n / real ?N))"
        by (simp add: mult_ac)
      then show "(of_real (x ! m) * cis (- (2 * pi * real k * real m / real ?N))) *
           (of_real (h ! l) * cis (- (2 * pi * real k * real l / real ?N))) *
           cis (2 * pi * real k * real n / real ?N) =
           of_real (x ! m * h ! l) * cis (2 * pi * real k * real_of_int (?d m l) / real ?N)"
        by (simp only: c)
    qed
    finally show ?thesis .
  qed
  have "(\<Sum>k<?N. dft x k * dft h k * cis (2 * pi * real k * real n / real ?N)) =
      (\<Sum>k<?N. \<Sum>m<?N. \<Sum>l<?N. of_real (x ! m * h ! l) *
         cis (2 * pi * real k * real_of_int (?d m l) / real ?N))"
    by (simp only: tm)
  also have "\<dots> = (\<Sum>m<?N. \<Sum>k<?N. \<Sum>l<?N. of_real (x ! m * h ! l) *
         cis (2 * pi * real k * real_of_int (?d m l) / real ?N))"
    by (rule sum.swap)
  also have "\<dots> = (\<Sum>m<?N. \<Sum>l<?N. \<Sum>k<?N. of_real (x ! m * h ! l) *
         cis (2 * pi * real k * real_of_int (?d m l) / real ?N))"
    by (intro sum.cong refl sum.swap)
  also have "\<dots> = (\<Sum>m<?N. \<Sum>l<?N. of_real (x ! m * h ! l) *
         (if int ?N dvd ?d m l then of_nat ?N else 0))"
    by (simp only: sum_distrib_left [symmetric] roots_sum [OF N])
  also have "\<dots> = (\<Sum>m<?N. \<Sum>l<?N.
         (if l = (n + ?N - m) mod ?N then of_real (x ! m * h ! l * real ?N) else 0))"
  proof (intro sum.cong refl)
    fix m l assume "m \<in> {..<?N}" "l \<in> {..<?N}"
    then have "int ?N dvd ?d m l \<longleftrightarrow> l = (n + ?N - m) mod ?N"
      using shift_index [OF n, of m l] by simp
    then show "of_real (x ! m * h ! l) * (if int ?N dvd ?d m l then of_nat ?N else 0) =
        (if l = (n + ?N - m) mod ?N then of_real (x ! m * h ! l * real ?N) else (0::complex))"
      by simp
  qed
  also have "\<dots> = (\<Sum>m<?N. of_real (x ! m * h ! ((n + ?N - m) mod ?N) * real ?N))"
  proof (intro sum.cong refl)
    fix m
    have "(n + ?N - m) mod ?N \<in> {..<?N}" using N by simp
    then show "(\<Sum>l<?N. (if l = (n + ?N - m) mod ?N then of_real (x ! m * h ! l * real ?N) else 0)) =
        (of_real (x ! m * h ! ((n + ?N - m) mod ?N) * real ?N) :: complex)"
      by (simp add: sum.delta)
  qed
  also have "\<dots> = of_real (real ?N * (\<Sum>m<?N. x ! m * h ! ((n + ?N - m) mod ?N)))"
    by (simp add: sum_distrib_left mult_ac)
  finally show ?thesis .
qed


lemma length_rfft_signal [simp]: "length (rfft_signal x) = length x div 2 + 1"
  by (simp add: rfft_signal_def)

lemma rfft_signal_nth:
  "k < length x div 2 + 1 \<Longrightarrow> rfft_signal x ! k = dft_bin x k"
  by (simp add: rfft_signal_def del: upt_Suc)

lemma length_spectral_product:
  "length h = length x \<Longrightarrow>
   length (spectral_product (rfft_signal x) (rfft_signal h)) = length x div 2 + 1"
  by (simp add: spectral_product_def)

lemma spectral_product_nth:
  assumes k: "k < length x div 2 + 1" and len: "length h = length x"
  shows "spectral_product (rfft_signal x) (rfft_signal h) ! k =
    [Re (dft x k * dft h k), Im (dft x k * dft h k)]"
proof -
  have kh: "k < length h div 2 + 1" using k len by simp
  have "k < length (zip (rfft_signal x) (rfft_signal h))" using k len by simp
  then show ?thesis
    unfolding spectral_product_def
    by (simp add: rfft_signal_nth [OF k] rfft_signal_nth [OF kh] dft_bin_dft)
qed

lemma hermitian_product:
  assumes len: "length h = length x" and ev: "even (length x)" and k: "k < length x"
  shows "hermitian_bin (spectral_product (rfft_signal x) (rfft_signal h)) (length x) k =
    (Re (dft x k * dft h k), Im (dft x k * dft h k))"
proof (cases "k < length x div 2 + 1")
  case True
  then show ?thesis
    unfolding hermitian_bin_def length_spectral_product [OF len]
    by (simp add: spectral_product_nth [OF True len])
next
  case False
  let ?N = "length x"
  from False k have r: "?N - k < ?N div 2 + 1" by linarith
  have kx: "k \<le> length x" and kh: "k \<le> length h" using k len by simp_all
  have "dft x (?N - k) * dft h (?N - k) = cnj (dft x k * dft h k)"
    using dft_conj [OF kx] dft_conj [OF kh] by (simp add: len)
  then have "Re (dft x (?N - k) * dft h (?N - k)) = Re (dft x k * dft h k)"
    and "- Im (dft x (?N - k) * dft h (?N - k)) = Im (dft x k * dft h k)"
    by simp_all
  with False show ?thesis
    unfolding hermitian_bin_def length_spectral_product [OF len]
    by (simp add: spectral_product_nth [OF r len])
qed

lemma fft_circular_convolution:
  assumes len: "length h = length x" and ev: "even (length x)" and pos: "0 < length x"
  shows "irfft_signal (spectral_product (rfft_signal x) (rfft_signal h)) =
    circular_convolution x h"
proof -
  let ?N = "length x"
  let ?S = "spectral_product (rfft_signal x) (rfft_signal h)"
  have lS: "length ?S = ?N div 2 + 1"
    by (rule length_spectral_product [OF len])
  have L: "2 * (length ?S - 1) = ?N" using ev by (simp add: lS)
  have item: "sum_list (map (\<lambda>k.
          fst (hermitian_bin ?S ?N k) * cos (2 * pi * real k * real n / real ?N)
          - snd (hermitian_bin ?S ?N k) * sin (2 * pi * real k * real n / real ?N))
        [0..<?N]) / real ?N =
      sum_list (map (\<lambda>m. x ! m * h ! ((n + ?N - m) mod ?N)) [0..<?N])" if n: "n < ?N" for n
  proof -
    have "(\<Sum>k<?N. fst (hermitian_bin ?S ?N k) * cos (2 * pi * real k * real n / real ?N)
          - snd (hermitian_bin ?S ?N k) * sin (2 * pi * real k * real n / real ?N)) =
        (\<Sum>k<?N. Re (dft x k * dft h k * cis (2 * pi * real k * real n / real ?N)))"
      by (intro sum.cong refl) (simp add: hermitian_product [OF len ev])
    also have "\<dots> = Re (\<Sum>k<?N. dft x k * dft h k * cis (2 * pi * real k * real n / real ?N))"
      by simp
    also have "\<dots> = real ?N * (\<Sum>m<?N. x ! m * h ! ((n + ?N - m) mod ?N))"
      by (simp only: conv_sum [OF len n] Re_complex_of_real)
    finally show ?thesis using pos by (simp add: sum_list_upt)
  qed
  have "irfft_signal ?S = map (\<lambda>n. sum_list (map (\<lambda>k.
          fst (hermitian_bin ?S ?N k) * cos (2 * pi * real k * real n / real ?N)
          - snd (hermitian_bin ?S ?N k) * sin (2 * pi * real k * real n / real ?N))
        [0..<?N]) / real ?N) [0..<?N]"
    unfolding irfft_signal_def Let_def L ..
  also have "\<dots> = map (\<lambda>n. sum_list (map (\<lambda>m. x ! m * h ! ((n + ?N - m) mod ?N)) [0..<?N])) [0..<?N]"
    by (rule map_cong [OF refl]) (simp add: item)
  finally show ?thesis by (simp add: circular_convolution_def)
qed

lemma transpose12_signal3:
  "transpose12 (signal3 xs) = \<lparr>shape = [1, 1, length xs], entries = [[xs]]\<rparr>"
  by (simp add: transpose12_def signal3_def swap_axes_def comp_def)

lemma transpose12_row:
  "transpose12 \<lparr>shape = [1, 1, length ys], entries = [[ys]]\<rparr> = signal3 ys"
proof -
  have "map (\<lambda>j. [ys ! j]) [0..<length ys] = map (\<lambda>v. [v]) (map (\<lambda>j. ys ! j) [0..<length ys])"
    by (simp add: comp_def)
  then have "map (\<lambda>j. [ys ! j]) [0..<length ys] = map (\<lambda>v. [v]) ys"
    by (simp only: map_nth)
  then show ?thesis by (simp add: transpose12_def signal3_def swap_axes_def)
qed

lemma complex_multiply_lists:
  "length X = length H \<Longrightarrow>
   map2 (\<lambda>a b. [a, b])
     (map2 (-) (map2 (*) (map (\<lambda>v. v ! 0) X) (map (\<lambda>v. v ! 0) H))
               (map2 (*) (map (\<lambda>v. v ! 1) X) (map (\<lambda>v. v ! 1) H)))
     (map2 (+) (map2 (*) (map (\<lambda>v. v ! 0) X) (map (\<lambda>v. v ! 1) H))
               (map2 (*) (map (\<lambda>v. v ! 1) X) (map (\<lambda>v. v ! 0) H))) =
   spectral_product X H"
  by (induction X H rule: list_induct2) (simp_all add: spectral_product_def)

lemma elementwise_row:
  assumes "length a = M" "length b = M"
  shows "elementwise op \<lparr>shape = [1, 1, M], entries = [[a]]\<rparr> \<lparr>shape = [1, 1, M], entries = [[b]]\<rparr> =
    Inr \<lparr>shape = [1, 1, M], entries = [[map2 op a b]]\<rparr>"
  using assms by (simp add: elementwise_def broadcast_shape_def stretch3_def stretch_def)


lemma fft_convolve_row:
  assumes two: "1 < length xs" and le: "length ks \<le> length xs"
  shows "fft_convolve (fft_prims pp cc) \<lparr>shape = [1, 1, length xs], entries = [[xs]]\<rparr>
      \<lparr>shape = [1, 1, length ks], entries = [[ks]]\<rparr> 0 =
    Inr \<lparr>shape = [1, 1, 2 * (length xs div 2)],
         entries = [[irfft_signal (spectral_product (rfft_signal xs)
           (rfft_signal (ks @ replicate (length xs - length ks) 0)))]]\<rparr>"
proof -
  let ?N = "length xs"
  let ?M = "?N div 2 + 1"
  define h where "h = ks @ replicate (?N - length ks) 0"
  let ?X = "rfft_signal xs"
  let ?H = "rfft_signal h"
  define sr where "sr = map (\<lambda>v. v ! 0) ?X"
  define si where "si = map (\<lambda>v. v ! 1) ?X"
  define kr where "kr = map (\<lambda>v. v ! 0) ?H"
  define ki where "ki = map (\<lambda>v. v ! 1) ?H"
  have lh: "length h = ?N" using le by (simp add: h_def)
  have ls: "length sr = ?M" "length si = ?M" "length kr = ?M" "length ki = ?M"
    by (simp_all add: sr_def si_def kr_def ki_def lh)
  have pos: "0 < ?N" using two by (cases xs) simp_all
  have M1: "1 < ?M" using two by (cases "?N div 2") auto
  have zl: "\<not> int ?N - int (length ks) < 0" using le by simp
  have cat: "cat3 (slice_from 0 \<lparr>shape = [1, 1, length ks], entries = [[ks]]\<rparr>)
      (zeros3 1 1 (nat (int ?N - int (length ks))))
      (slice_to 0 \<lparr>shape = [1, 1, length ks], entries = [[ks]]\<rparr>) =
    Inr \<lparr>shape = [1, 1, ?N], entries = [[h]]\<rparr>"
    using le by (simp add: cat3_def slice_from_def slice_to_def slice_bound_def zeros3_def
        nat_diff_distrib' h_def)
  have fs: "torch_rfft \<lparr>shape = [1, 1, ?N], entries = [[xs]]\<rparr> =
      Inr \<lparr>shape = [1, 1, ?M, 2], entries = [[?X]]\<rparr>"
    using pos by (simp add: torch_rfft_def)
  have fk: "torch_rfft \<lparr>shape = [1, 1, ?N], entries = [[h]]\<rparr> =
      Inr \<lparr>shape = [1, 1, ?M, 2], entries = [[?H]]\<rparr>"
    using pos by (simp add: torch_rfft_def lh)
  have us: "unbind2 \<lparr>shape = [1, 1, ?M, 2], entries = [[?X]]\<rparr> =
      Inr (\<lparr>shape = [1, 1, ?M], entries = [[sr]]\<rparr>, \<lparr>shape = [1, 1, ?M], entries = [[si]]\<rparr>)"
    by (simp add: unbind2_def sr_def si_def)
  have uk: "unbind2 \<lparr>shape = [1, 1, ?M, 2], entries = [[?H]]\<rparr> =
      Inr (\<lparr>shape = [1, 1, ?M], entries = [[kr]]\<rparr>, \<lparr>shape = [1, 1, ?M], entries = [[ki]]\<rparr>)"
    by (simp add: unbind2_def kr_def ki_def)
  define re where "re = map2 (-) (map2 (*) sr kr) (map2 (*) si ki)"
  define im where "im = map2 (+) (map2 (*) sr ki) (map2 (*) si kr)"
  have lr: "length re = ?M" "length im = ?M" by (simp_all add: re_def im_def ls)
  have e1: "elementwise (*) \<lparr>shape = [1, 1, ?M], entries = [[sr]]\<rparr> \<lparr>shape = [1, 1, ?M], entries = [[kr]]\<rparr> =
      Inr \<lparr>shape = [1, 1, ?M], entries = [[map2 (*) sr kr]]\<rparr>"
    by (rule elementwise_row) (rule ls)+
  have e2: "elementwise (*) \<lparr>shape = [1, 1, ?M], entries = [[si]]\<rparr> \<lparr>shape = [1, 1, ?M], entries = [[ki]]\<rparr> =
      Inr \<lparr>shape = [1, 1, ?M], entries = [[map2 (*) si ki]]\<rparr>"
    by (rule elementwise_row) (rule ls)+
  have e3: "elementwise (-) \<lparr>shape = [1, 1, ?M], entries = [[map2 (*) sr kr]]\<rparr>
      \<lparr>shape = [1, 1, ?M], entries = [[map2 (*) si ki]]\<rparr> =
      Inr \<lparr>shape = [1, 1, ?M], entries = [[re]]\<rparr>"
    unfolding re_def by (rule elementwise_row) (simp_all add: ls)
  have e4: "elementwise (*) \<lparr>shape = [1, 1, ?M], entries = [[sr]]\<rparr> \<lparr>shape = [1, 1, ?M], entries = [[ki]]\<rparr> =
      Inr \<lparr>shape = [1, 1, ?M], entries = [[map2 (*) sr ki]]\<rparr>"
    by (rule elementwise_row) (rule ls)+
  have e5: "elementwise (*) \<lparr>shape = [1, 1, ?M], entries = [[si]]\<rparr> \<lparr>shape = [1, 1, ?M], entries = [[kr]]\<rparr> =
      Inr \<lparr>shape = [1, 1, ?M], entries = [[map2 (*) si kr]]\<rparr>"
    by (rule elementwise_row) (rule ls)+
  have e6: "elementwise (+) \<lparr>shape = [1, 1, ?M], entries = [[map2 (*) sr ki]]\<rparr>
      \<lparr>shape = [1, 1, ?M], entries = [[map2 (*) si kr]]\<rparr> =
      Inr \<lparr>shape = [1, 1, ?M], entries = [[im]]\<rparr>"
    unfolding im_def by (rule elementwise_row) (simp_all add: ls)
  have sp: "map2 (\<lambda>a b. [a, b]) re im = spectral_product ?X ?H"
    unfolding re_def im_def sr_def si_def kr_def ki_def
    by (rule complex_multiply_lists) (simp add: lh)
  have st: "stack2 \<lparr>shape = [1, 1, ?M], entries = [[re]]\<rparr> \<lparr>shape = [1, 1, ?M], entries = [[im]]\<rparr> =
      Inr \<lparr>shape = [1, 1, ?M, 2], entries = [[spectral_product ?X ?H]]\<rparr>"
    by (simp add: stack2_def sp)
  have inv: "torch_irfft \<lparr>shape = [1, 1, ?M, 2], entries = [[spectral_product ?X ?H]]\<rparr> =
      Inr \<lparr>shape = [1, 1, 2 * (?N div 2)],
        entries = [[irfft_signal (spectral_product ?X ?H)]]\<rparr>"
    using M1 by (simp add: torch_irfft_def)
  have "fft_convolve (fft_prims pp cc) \<lparr>shape = [1, 1, length xs], entries = [[xs]]\<rparr>
      \<lparr>shape = [1, 1, length ks], entries = [[ks]]\<rparr> 0 =
    Inr \<lparr>shape = [1, 1, 2 * (length xs div 2)],
         entries = [[irfft_signal (spectral_product (rfft_signal xs) (rfft_signal h))]]\<rparr>"
    unfolding fft_convolve_def Let_def
    using zl cat fs fk us uk e1 e2 e3 e4 e5 e6 st inv
    by (simp add: bind_def fft_prims_def)
  then show ?thesis by (simp only: h_def)
qed


lemma length_irfft_signal: "length (irfft_signal X) = 2 * (length X - 1)"
  by (simp add: irfft_signal_def Let_def)

lemma convolve1d_fft_signal:
  assumes two: "1 < length xs" and le: "length ks \<le> length xs"
  shows "convolve1d (fft_prims pp cc) (signal3 xs) (signal3 ks) (PadInt n) pad_type stride groups
      True 0 =
    Inr (signal3 (irfft_signal (spectral_product (rfft_signal xs)
      (rfft_signal (ks @ replicate (length xs - length ks) 0))))) \<and>
    length (irfft_signal (spectral_product (rfft_signal xs)
      (rfft_signal (ks @ replicate (length xs - length ks) 0)))) = 2 * (length xs div 2)"
proof -
  define ys where "ys = irfft_signal (spectral_product (rfft_signal xs)
      (rfft_signal (ks @ replicate (length xs - length ks) 0)))"
  have ly: "length ys = 2 * (length xs div 2)"
    using le by (simp add: ys_def length_irfft_signal length_spectral_product)
  have fc: "fft_convolve (fft_prims pp cc) \<lparr>shape = [1, 1, length xs], entries = [[xs]]\<rparr>
      \<lparr>shape = [1, 1, length ks], entries = [[ks]]\<rparr> 0 =
    Inr \<lparr>shape = [1, 1, length ys], entries = [[ys]]\<rparr>"
    using fft_convolve_row [OF two le, of pp cc] by (simp only: ly ys_def [symmetric])
  have r3: "length (shape (signal3 xs)) = 3" "\<not> length (shape (signal3 ks)) < 3"
    by (simp_all add: signal3_def)
  have "convolve1d (fft_prims pp cc) (signal3 xs) (signal3 ks) (PadInt n) pad_type stride groups
      True 0 = Inr (signal3 ys)"
    unfolding convolve1d_def Let_def transpose12_signal3
    using r3 fc transpose12_row [of ys] by (simp add: bind_def)
  with ly show ?thesis unfolding ys_def by simp
qed

lemma convolve1d_fft_even_length:
  assumes ev: "even (length xs)" and pos: "0 < length xs" and le: "length ks \<le> length xs"
  shows "convolve1d (fft_prims pp cc) (signal3 xs) (signal3 ks) (PadInt n) pad_type stride groups
      True 0 =
    Inr (signal3 (circular_convolution xs (ks @ replicate (length xs - length ks) 0)))"
proof -
  have "length xs \<noteq> 1" using ev by auto
  with pos have two: "1 < length xs" by linarith
  have lh: "length (ks @ replicate (length xs - length ks) 0) = length xs" using le by simp
  show ?thesis
    using convolve1d_fft_signal [OF two le, of pp cc n pad_type stride groups]
    by (simp only: fft_circular_convolution [OF lh ev pos])
qed

lemma convolve1d_fft_odd_samples:
  assumes od: "odd (length xs)" and two: "1 < length xs" and le: "length ks \<le> length xs"
  shows "\<exists>ys. convolve1d (fft_prims pp cc) (signal3 xs) (signal3 ks) (PadInt n) pad_type stride
      groups True 0 = Inr (signal3 ys) \<and> length ys = length xs - 1"
proof -
  have "2 * (length xs div 2) = length xs - 1" using od by (auto elim!: oddE)
  with convolve1d_fft_signal [OF two le, of pp cc n pad_type stride groups]
  show ?thesis by auto
qed


end
